theory Spec2Isabelle
  imports Main "HOL-Library.List_Lexorder" "HOL-Library.Multiset" "HOL-Library.AList"
begin

section \<open>Python strings\<close>

text \<open>
  A Python \<open>str\<close> is a sequence of Unicode code points; it is modelled as a list of
  natural numbers, so that the length, the indices and the comparison of two strings are
  those of Python. \<open>str\<close> turns an ASCII literal into such a list.
\<close>

type_synonym str = "nat list"

definition str :: "string \<Rightarrow> str" where
  "str s = map of_char s"

text \<open>
  The methods of \<open>str\<close> that look a character up in the Unicode database
  (\<open>isalnum\<close>, \<open>isspace\<close>, \<open>lower\<close>, \<open>capitalize\<close>) are tabulated here for
  Basic Latin and Latin-1 Supplement (U+0000 to U+00FF) and for U+0130 (capital I with dot
  above) and U+0307 (combining dot above), which \<open>lower\<close> produces from U+0130. Code points
  beyond these are not tabulated: the definitions treat them as symbols without case that
  are not alphanumeric, which Python does for some of them only. The theorems about every
  name are therefore either restricted to ASCII names, or use of the tables only what holds
  of the whole Unicode database as well: the lower-case and the title-case mapping of a
  character are not empty, and contain a hyphen or \<open><\<close> only when the character is
  that one.
\<close>

definition isalnum :: "nat \<Rightarrow> bool" where
  "isalnum c \<longleftrightarrow>
     (0x30 \<le> c \<and> c \<le> 0x39) \<or> (0x41 \<le> c \<and> c \<le> 0x5A) \<or> (0x61 \<le> c \<and> c \<le> 0x7A) \<or>
     c = 0xAA \<or> c = 0xB2 \<or> c = 0xB3 \<or> c = 0xB5 \<or> c = 0xB9 \<or> c = 0xBA \<or>
     (0xBC \<le> c \<and> c \<le> 0xBE) \<or> (0xC0 \<le> c \<and> c \<le> 0xD6) \<or> (0xD8 \<le> c \<and> c \<le> 0xF6) \<or>
     (0xF8 \<le> c \<and> c \<le> 0xFF) \<or> c = 0x130"

definition isspace :: "nat \<Rightarrow> bool" where
  "isspace c \<longleftrightarrow>
     (0x09 \<le> c \<and> c \<le> 0x0D) \<or> (0x1C \<le> c \<and> c \<le> 0x20) \<or> c = 0x85 \<or> c = 0xA0"

text \<open>The lower-case mapping of one code point; U+0130 maps to two code points.\<close>

definition lower_char :: "nat \<Rightarrow> str" where
  "lower_char c =
     (if 0x41 \<le> c \<and> c \<le> 0x5A then [c + 0x20]
      else if 0xC0 \<le> c \<and> c \<le> 0xDE \<and> c \<noteq> 0xD7 then [c + 0x20]
      else if c = 0x130 then [0x69, 0x307]
      else [c])"

text \<open>
  The title-case mapping of one code point, which \<open>capitalize\<close> applies to the first
  character (CPython 3.8 and later): the micro sign maps to U+039C, sharp s to \<open>Ss\<close>,
  y with diaeresis to U+0178.
\<close>

definition title_char :: "nat \<Rightarrow> str" where
  "title_char c =
     (if 0x61 \<le> c \<and> c \<le> 0x7A then [c - 0x20]
      else if c = 0xB5 then [0x39C]
      else if c = 0xDF then [0x53, 0x73]
      else if 0xE0 \<le> c \<and> c \<le> 0xFE \<and> c \<noteq> 0xF7 then [c - 0x20]
      else if c = 0xFF then [0x178]
      else [c])"

definition py_lower :: "str \<Rightarrow> str" where
  "py_lower s = concat (map lower_char s)"

definition capitalize :: "str \<Rightarrow> str" where
  "capitalize w = (case w of [] \<Rightarrow> [] | c # cs \<Rightarrow> title_char c @ py_lower cs)"

text \<open>\<open>sub in s\<close>: \<open>sub\<close> occurs in \<open>s\<close> as a contiguous run.\<close>

fun py_in :: "str \<Rightarrow> str \<Rightarrow> bool" where
  "py_in sub [] = (sub = [])"
| "py_in sub (c # cs) = (take (length sub) (c # cs) = sub \<or> py_in sub cs)"

text \<open>
  \<open>s.replace(old, new)\<close> replaces the occurrences of \<open>old\<close> from left to right, without
  overlap; an empty \<open>old\<close> matches before every character and at the end.
\<close>

function py_replace :: "str \<Rightarrow> str \<Rightarrow> str \<Rightarrow> str" where
  "py_replace s old new =
     (if old = [] then new @ concat (map (\<lambda>c. c # new) s)
      else if s = [] then []
      else if take (length old) s = old then new @ py_replace (drop (length old) s) old new
      else hd s # py_replace (tl s) old new)"
  by pat_completeness auto
termination
  by (relation "measure (\<lambda>(s, old, new). length s)") (auto simp: Suc_le_eq)

declare py_replace.simps [simp del]

text \<open>\<open>s.split()\<close>: the maximal runs of characters that are not white space.\<close>

primrec split_from :: "str \<Rightarrow> str \<Rightarrow> str list" where
  "split_from cur [] = (if cur = [] then [] else [cur])"
| "split_from cur (c # cs) =
     (if isspace c then (if cur = [] then split_from [] cs else cur # split_from [] cs)
      else split_from (cur @ [c]) cs)"

definition py_split :: "str \<Rightarrow> str list" where
  "py_split s = split_from [] s"

text \<open>\<open>sep.join(xs)\<close>.\<close>

fun py_join :: "str \<Rightarrow> str list \<Rightarrow> str" where
  "py_join sep [] = []"
| "py_join sep [x] = x"
| "py_join sep (x # y # ys) = x @ sep @ py_join sep (y # ys)"

text \<open>\<open>s.rfind(c)\<close> for a single character: the last index of \<open>c\<close>, or \<open>-1\<close>.\<close>

primrec rfind_from :: "int \<Rightarrow> int \<Rightarrow> str \<Rightarrow> nat \<Rightarrow> int" where
  "rfind_from i found [] c = found"
| "rfind_from i found (x # xs) c = rfind_from (i + 1) (if x = c then i else found) xs c"

definition rfind :: "str \<Rightarrow> nat \<Rightarrow> int" where
  "rfind s c = rfind_from 0 (- 1) s c"

section \<open>os.path.splitext\<close>

text \<open>
  \<open>os.path.splitext\<close> of \<open>posixpath\<close>: the extension starts at the last dot of the last
  path component, unless only dots precede it there. \<open>leading_dots_end\<close> is the loop that
  skips the leading dots; it answers whether a character other than a dot was found
  before \<open>dotIndex\<close>.
\<close>

function leading_dots_end :: "str \<Rightarrow> int \<Rightarrow> int \<Rightarrow> bool" where
  "leading_dots_end p filenameIndex dotIndex =
     (if filenameIndex < dotIndex then
        (if take 1 (drop (nat filenameIndex) p) \<noteq> str ''.'' then True
         else leading_dots_end p (filenameIndex + 1) dotIndex)
      else False)"
  by pat_completeness auto
termination
  by (relation "measure (\<lambda>(p, filenameIndex, dotIndex). nat (dotIndex - filenameIndex))") auto

declare leading_dots_end.simps [simp del]

definition splitext :: "str \<Rightarrow> str \<times> str" where
  "splitext p =
     (let sepIndex = rfind p 0x2F;
          dotIndex = rfind p 0x2E
      in if dotIndex > sepIndex \<and> leading_dots_end p (sepIndex + 1) dotIndex
         then (take (nat dotIndex) p, drop (nat dotIndex) p)
         else (p, []))"

section \<open>Slugs and titles\<close>

text \<open>The loop \<open>while "--" in base: base = base.replace("--", "-")\<close>.\<close>

lemma take_eq_length_le:
  assumes "take (length old) s = old"
  shows "length old \<le> length s"
proof -
  have "length (take (length old) s) = length old"
    using assms by simp
  then show ?thesis
    by simp
qed

lemma py_replace_length_le:
  "old \<noteq> [] \<Longrightarrow> length new \<le> length old \<Longrightarrow> length (py_replace s old new) \<le> length s"
proof (induction s old new rule: py_replace.induct)
  case (1 s old new)
  show ?case
  proof (cases "s = []")
    case True
    then show ?thesis using 1 by (simp add: py_replace.simps)
  next
    case False
    show ?thesis
    proof (cases "take (length old) s = old")
      case True
      then show ?thesis using 1 False take_eq_length_le [OF True]
        by (subst py_replace.simps) simp
    next
      case no_match: False
      then show ?thesis using 1 False
        by (subst py_replace.simps) (cases s; simp)
    qed
  qed
qed

lemma py_replace_length_less:
  "old \<noteq> [] \<Longrightarrow> length new < length old \<Longrightarrow> py_in old s \<Longrightarrow>
   length (py_replace s old new) < length s"
proof (induction s old new rule: py_replace.induct)
  case (1 s old new)
  show ?case
  proof (cases "s = []")
    case True
    then show ?thesis using 1 by simp
  next
    case False
    show ?thesis
    proof (cases "take (length old) s = old")
      case True
      have "length (py_replace (drop (length old) s) old new) \<le> length (drop (length old) s)"
        using 1 by (intro py_replace_length_le) auto
      then show ?thesis using 1 True False take_eq_length_le [OF True]
        by (subst py_replace.simps) simp
    next
      case no_match: False
      then show ?thesis using 1 False
        by (subst py_replace.simps) (cases s; simp)
    qed
  qed
qed

function collapse_hyphens :: "str \<Rightarrow> str" where
  "collapse_hyphens base =
     (if py_in (str ''--'') base
      then collapse_hyphens (py_replace base (str ''--'') (str ''-''))
      else base)"
  by pat_completeness auto
termination
  by (relation "measure length") (auto simp: str_def intro!: py_replace_length_less)

declare collapse_hyphens.simps [simp del]

definition slug_from_name :: "str \<Rightarrow> str" where
  "slug_from_name name =
     (let base = fst (splitext name);
          base = py_replace base (str '' '') (str ''-'');
          base = concat (map (\<lambda>ch. if isalnum ch \<or> ch \<in> set (str ''-_'') then [ch] else str ''-'') base);
          base = collapse_hyphens base
      in if py_lower base \<noteq> [] then py_lower base else str ''page'')"

definition title_from_name :: "str \<Rightarrow> str" where
  "title_from_name name =
     (let base = fst (splitext name);
          base = py_replace (py_replace base (str ''_'') (str '' '')) (str ''-'') (str '' '')
      in py_join (str '' '') (map capitalize (py_split base)))"

text \<open>The characters \<open>[a-z0-9-_]\<close>.\<close>

definition slug_char :: "nat \<Rightarrow> bool" where
  "slug_char c \<longleftrightarrow>
     (0x61 \<le> c \<and> c \<le> 0x7A) \<or> (0x30 \<le> c \<and> c \<le> 0x39) \<or> c = 0x2D \<or> c = 0x5F"

section \<open>The file tree\<close>

text \<open>
  The state the generator reads and writes is the tree below \<open>ROOT\<close>, the directory of
  the script: regular files with their text, and directories with their entries in the
  order \<open>iterdir\<close> yields them. A path is the list of its components below \<open>ROOT\<close>, so
  \<open>p / name\<close> is \<open>p @ [name]\<close>. Symbolic links, devices and permissions are not
  modelled, and a file holds a \<open>str\<close>: the encoding to UTF-8 is left out. A new entry
  goes to the end of its directory.
\<close>

datatype node = File str | Dir "(str \<times> node) list"

type_synonym path = "str list"

datatype error = FileNotFoundError | NotADirectoryError | IsADirectoryError | FileExistsError

fun lookup :: "node \<Rightarrow> path \<Rightarrow> node option" where
  "lookup t [] = Some t"
| "lookup (File c) (n # p) = None"
| "lookup (Dir es) (n # p) = (case map_of es n of None \<Rightarrow> None | Some t \<Rightarrow> lookup t p)"

definition exists :: "node \<Rightarrow> path \<Rightarrow> bool" where
  "exists fs p \<longleftrightarrow> lookup fs p \<noteq> None"

definition is_file :: "node \<Rightarrow> path \<Rightarrow> bool" where
  "is_file fs p \<longleftrightarrow> (case lookup fs p of Some (File c) \<Rightarrow> True | _ \<Rightarrow> False)"

definition is_dir :: "node \<Rightarrow> path \<Rightarrow> bool" where
  "is_dir fs p \<longleftrightarrow> (case lookup fs p of Some (Dir es) \<Rightarrow> True | _ \<Rightarrow> False)"

definition iterdir :: "node \<Rightarrow> path \<Rightarrow> error + path list" where
  "iterdir fs p =
     (case lookup fs p of
        None \<Rightarrow> Inl FileNotFoundError
      | Some (File c) \<Rightarrow> Inl NotADirectoryError
      | Some (Dir es) \<Rightarrow> Inr (map (\<lambda>(n, t). p @ [n]) es))"

text \<open>\<open>Path.name\<close> and \<open>Path.suffix\<close>.\<close>

definition path_name :: "path \<Rightarrow> str" where
  "path_name p = (if p = [] then [] else last p)"

definition suffix :: "path \<Rightarrow> str" where
  "suffix p =
     (let name = path_name p;
          i = rfind name 0x2E
      in if 0 < i \<and> i < int (length name) - 1 then drop (nat i) name else [])"

fun read_text :: "node \<Rightarrow> path \<Rightarrow> error + str" where
  "read_text (File c) [] = Inr c"
| "read_text (Dir es) [] = Inl IsADirectoryError"
| "read_text (File c) (n # p) = Inl NotADirectoryError"
| "read_text (Dir es) (n # p) =
     (case map_of es n of None \<Rightarrow> Inl FileNotFoundError | Some t \<Rightarrow> read_text t p)"

text \<open>\<open>path.mkdir(parents=True, exist_ok=True)\<close>.\<close>

fun mkdir_p :: "node \<Rightarrow> path \<Rightarrow> error + node" where
  "mkdir_p (File c) [] = Inl FileExistsError"
| "mkdir_p (Dir es) [] = Inr (Dir es)"
| "mkdir_p (File c) (n # p) = Inl NotADirectoryError"
| "mkdir_p (Dir es) (n # p) =
     (case mkdir_p (case map_of es n of None \<Rightarrow> Dir [] | Some t \<Rightarrow> t) p of
        Inl e \<Rightarrow> Inl e
      | Inr t' \<Rightarrow> Inr (Dir (AList.update n t' es)))"

text \<open>\<open>path.write_text(content)\<close>: the file is created or overwritten.\<close>

fun write_text :: "node \<Rightarrow> path \<Rightarrow> str \<Rightarrow> error + node" where
  "write_text (File old) [] content = Inr (File content)"
| "write_text (Dir es) [] content = Inl IsADirectoryError"
| "write_text (File old) (n # p) content = Inl NotADirectoryError"
| "write_text (Dir es) (n # p) content =
     (case map_of es n of
        None \<Rightarrow>
          (if p = [] then Inr (Dir (AList.update n (File content) es)) else Inl FileNotFoundError)
      | Some t \<Rightarrow>
          (case write_text t p content of
             Inl e \<Rightarrow> Inl e
           | Inr t' \<Rightarrow> Inr (Dir (AList.update n t' es))))"

section \<open>The generator\<close>

definition DOCS_DIR :: path where
  "DOCS_DIR = [str ''docs'']"

definition VIDEOS_ROOT :: path where
  "VIDEOS_ROOT = [str ''assets'', str ''videos'']"

definition BASE_URL :: str where
  "BASE_URL = str ''/animations''"

definition CATEGORIES :: "(str \<times> str) list" where
  "CATEGORIES =
     [(str ''constitutive-models'', str ''Constitutive Models''),
      (str ''plaxis'', str ''PLAXIS''),
      (str ''undergraduate'', str ''Undergraduate'')]"

definition VIDEO_EXTS :: "str set" where
  "VIDEO_EXTS = {str ''.mp4'', str ''.webm'', str ''.mov'', str ''.m4v'', str ''.gif''}"

definition list_video_files :: "node \<Rightarrow> path \<Rightarrow> error + path list" where
  "list_video_files fs folder =
     (if \<not> exists fs folder then Inr []
      else case iterdir fs folder of
        Inl e \<Rightarrow> Inl e
      | Inr entries \<Rightarrow>
          Inr (sort_key (\<lambda>x. py_lower (path_name x))
                 (filter (\<lambda>f. is_file fs f \<and> py_lower (suffix f) \<in> VIDEO_EXTS) entries)))"

definition list_subfolders :: "node \<Rightarrow> path \<Rightarrow> error + path list" where
  "list_subfolders fs folder =
     (if \<not> exists fs folder then Inr []
      else case iterdir fs folder of
        Inl e \<Rightarrow> Inl e
      | Inr entries \<Rightarrow>
          Inr (sort_key (\<lambda>x. py_lower (path_name x)) (filter (\<lambda>d. is_dir fs d) entries)))"

definition write_html :: "node \<Rightarrow> path \<Rightarrow> str \<Rightarrow> error + node" where
  "write_html fs path content =
     (case mkdir_p fs (butlast path) of
        Inl e \<Rightarrow> Inl e
      | Inr fs' \<Rightarrow> write_text fs' path content)"

definition read_template :: "node \<Rightarrow> str \<Rightarrow> error + str" where
  "read_template fs name = read_text fs (DOCS_DIR @ [name])"

subsection \<open>The index page\<close>

definition index_link :: "str \<Rightarrow> str \<Rightarrow> str" where
  \<open>index_link slug title =
     str ''<li><a href="'' @ BASE_URL @ str ''/'' @ slug @ str ''.html">'' @ title @ str ''</a></li>''\<close>

definition index_body :: "str list \<Rightarrow> str" where
  \<open>index_body links =
     str ''\<newline><h1>GeomechMotion '' @ [0x2014] @ str '' Numerical Modelling Animations</h1>\<newline>'' @
     str ''<p>Select a category to explore animations:</p>\<newline>\<newline><ul>\<newline>    '' @
     concat links @ str ''\<newline></ul>\<newline>''\<close>

definition index_page :: "node \<Rightarrow> error + str" where
  "index_page fs =
     (case read_template fs (str ''_template_top.html'') of Inl e \<Rightarrow> Inl e | Inr template_top \<Rightarrow>
      case read_template fs (str ''_template_bottom.html'') of Inl e \<Rightarrow> Inl e | Inr template_bottom \<Rightarrow>
      let links = map (\<lambda>(slug, title). index_link slug title)
                    (filter (\<lambda>(slug, title). exists fs (VIDEOS_ROOT @ [slug])) CATEGORIES)
      in Inr (template_top @ index_body links @ template_bottom))"

definition make_index_page :: "node \<Rightarrow> error + node" where
  "make_index_page fs =
     (case index_page fs of
        Inl e \<Rightarrow> Inl e
      | Inr full \<Rightarrow> write_html fs (DOCS_DIR @ [str ''index.html'']) full)"

subsection \<open>The page of a category\<close>

definition subfolder_item :: "str \<Rightarrow> path \<Rightarrow> str" where
  \<open>subfolder_item cat_slug sub =
     str ''<li><a href="'' @ BASE_URL @ str ''/'' @ cat_slug @ str ''/'' @
     slug_from_name (path_name sub) @ str ''.html">'' @ title_from_name (path_name sub) @
     str ''</a></li>''\<close>

definition subfolders_body :: "str \<Rightarrow> str \<Rightarrow> path list \<Rightarrow> str" where
  \<open>subfolders_body cat_slug cat_title subfolders =
     str ''\<newline><h1>'' @ cat_title @ str ''</h1>\<newline>\<newline><ul>\<newline>    '' @
     concat (map (subfolder_item cat_slug) subfolders) @
     str ''\<newline></ul>\<newline>\<newline><p><a href="'' @ BASE_URL @
     str ''/index.html">Back to home</a></p>\<newline>''\<close>

text \<open>The block of one video; both kinds of page build it from the same text.\<close>

definition video_block :: "str \<Rightarrow> str \<Rightarrow> str" where
  \<open>video_block src title =
     str ''\<newline><section>\<newline>    <video controls>\<newline>        <source src="'' @ src @
     str ''">\<newline>    </video>\<newline>    <p>Animation: '' @ title @
     str ''</p>\<newline></section>\<newline>''\<close>

definition category_block :: "str \<Rightarrow> path \<Rightarrow> str" where
  "category_block cat_slug vid =
     video_block (BASE_URL @ str ''/assets/videos/'' @ cat_slug @ str ''/'' @ path_name vid)
       (title_from_name (path_name vid))"

definition videos_body :: "str \<Rightarrow> str \<Rightarrow> path list \<Rightarrow> str" where
  \<open>videos_body cat_slug cat_title videos =
     (let blocks = map (category_block cat_slug) videos;
          blocks = (if blocks = [] then blocks @ [str ''<p>No videos available yet.</p>''] else blocks)
      in str ''\<newline><h1>'' @ cat_title @ str ''</h1>\<newline>'' @ concat blocks @
         str ''\<newline><p><a href="'' @ BASE_URL @ str ''/index.html">Back to home</a></p>\<newline>'')\<close>

definition category_page :: "node \<Rightarrow> str \<Rightarrow> str \<Rightarrow> error + str" where
  "category_page fs cat_slug cat_title =
     (case read_template fs (str ''_template_top.html'') of Inl e \<Rightarrow> Inl e | Inr template_top \<Rightarrow>
      case read_template fs (str ''_template_bottom.html'') of Inl e \<Rightarrow> Inl e | Inr template_bottom \<Rightarrow>
      let cat_dir = VIDEOS_ROOT @ [cat_slug] in
      case list_subfolders fs cat_dir of Inl e \<Rightarrow> Inl e | Inr subfolders \<Rightarrow>
      if subfolders \<noteq> [] then
        Inr (template_top @ subfolders_body cat_slug cat_title subfolders @ template_bottom)
      else
        case list_video_files fs cat_dir of Inl e \<Rightarrow> Inl e | Inr videos \<Rightarrow>
        Inr (template_top @ videos_body cat_slug cat_title videos @ template_bottom))"

definition make_category_page :: "node \<Rightarrow> str \<Rightarrow> str \<Rightarrow> error + node" where
  "make_category_page fs cat_slug cat_title =
     (case category_page fs cat_slug cat_title of
        Inl e \<Rightarrow> Inl e
      | Inr full \<Rightarrow> write_html fs (DOCS_DIR @ [cat_slug @ str ''.html'']) full)"

subsection \<open>The page of a subfolder\<close>

definition subcategory_block :: "str \<Rightarrow> path \<Rightarrow> path \<Rightarrow> str" where
  "subcategory_block cat_slug subfolder vid =
     video_block (BASE_URL @ str ''/assets/videos/'' @ cat_slug @ str ''/'' @ path_name subfolder @
                  str ''/'' @ path_name vid)
       (title_from_name (path_name vid))"

definition subcategory_body :: "str \<Rightarrow> str \<Rightarrow> path \<Rightarrow> path list \<Rightarrow> str" where
  \<open>subcategory_body cat_slug cat_title subfolder videos =
     (let blocks = map (subcategory_block cat_slug subfolder) videos;
          blocks = (if blocks = [] then blocks @ [str ''<p>No videos available.</p>''] else blocks)
      in str ''\<newline><h1>'' @ title_from_name (path_name subfolder) @ str ''</h1>\<newline><p>Category: '' @
         cat_title @ str ''</p>\<newline>\<newline>'' @ concat blocks @
         str ''\<newline>\<newline><p>\<newline>    <a href="'' @ BASE_URL @ str ''/'' @ cat_slug @
         str ''.html">Back to '' @ cat_title @ str ''</a> |\<newline>    <a href="'' @ BASE_URL @
         str ''/index.html">Home</a>\<newline></p>\<newline>'')\<close>

definition subcategory_page :: "node \<Rightarrow> str \<Rightarrow> str \<Rightarrow> path \<Rightarrow> error + str" where
  "subcategory_page fs cat_slug cat_title subfolder =
     (case read_template fs (str ''_template_top.html'') of Inl e \<Rightarrow> Inl e | Inr template_top \<Rightarrow>
      case read_template fs (str ''_template_bottom.html'') of Inl e \<Rightarrow> Inl e | Inr template_bottom \<Rightarrow>
      case list_video_files fs subfolder of Inl e \<Rightarrow> Inl e | Inr videos \<Rightarrow>
      Inr (template_top @ subcategory_body cat_slug cat_title subfolder videos @ template_bottom))"

definition make_subcategory_page :: "node \<Rightarrow> str \<Rightarrow> str \<Rightarrow> path \<Rightarrow> error + node" where
  "make_subcategory_page fs cat_slug cat_title subfolder =
     (case subcategory_page fs cat_slug cat_title subfolder of
        Inl e \<Rightarrow> Inl e
      | Inr full \<Rightarrow>
          write_html fs (DOCS_DIR @ [cat_slug, slug_from_name (path_name subfolder) @ str ''.html''])
            full)"

subsection \<open>The run\<close>

text \<open>
  The two loops of \<open>main\<close>: over the subfolders of a category, whose list is taken once
  before the loop, and over the categories. The progress lines printed on the way are
  left out.
\<close>

fun subfolder_pages :: "str \<Rightarrow> str \<Rightarrow> path list \<Rightarrow> node \<Rightarrow> error + node" where
  "subfolder_pages slug title [] fs = Inr fs"
| "subfolder_pages slug title (sub # subs) fs =
     (case make_subcategory_page fs slug title sub of
        Inl e \<Rightarrow> Inl e
      | Inr fs' \<Rightarrow> subfolder_pages slug title subs fs')"

fun category_pages :: "(str \<times> str) list \<Rightarrow> node \<Rightarrow> error + node" where
  "category_pages [] fs = Inr fs"
| "category_pages ((slug, title) # cats) fs =
     (let cat_dir = VIDEOS_ROOT @ [slug] in
      if \<not> exists fs cat_dir then category_pages cats fs
      else
        case make_category_page fs slug title of Inl e \<Rightarrow> Inl e | Inr fs1 \<Rightarrow>
        case list_subfolders fs1 cat_dir of Inl e \<Rightarrow> Inl e | Inr subs \<Rightarrow>
        case subfolder_pages slug title subs fs1 of Inl e \<Rightarrow> Inl e | Inr fs2 \<Rightarrow>
        category_pages cats fs2)"

definition main :: "node \<Rightarrow> error + node" where
  "main fs =
     (case (if \<not> exists fs DOCS_DIR then mkdir_p fs DOCS_DIR else Inr fs) of Inl e \<Rightarrow> Inl e | Inr fs0 \<Rightarrow>
      case make_index_page fs0 of Inl e \<Rightarrow> Inl e | Inr fs1 \<Rightarrow>
      category_pages CATEGORIES fs1)"

subsection \<open>Trees of the examples\<close>

text \<open>
  A tree with the directory \<open>docs\<close> and the directory \<open>assets/videos\<close>, and the two
  template fragments every run needs.
\<close>

definition site_tree :: "(str \<times> node) list \<Rightarrow> (str \<times> node) list \<Rightarrow> node" where
  "site_tree docs videos =
     Dir [(str ''docs'', Dir docs), (str ''assets'', Dir [(str ''videos'', Dir videos)])]"

definition templates :: "(str \<times> node) list" where
  "templates =
     [(str ''_template_top.html'', File (str ''<html><body>'')),
      (str ''_template_bottom.html'', File (str ''</body></html>''))]"

text \<open>The category \<open>plaxis\<close> with the subfolder \<open>Tunnel Excavation\<close> and one video in it.\<close>

definition plaxis_videos :: "(str \<times> node) list" where
  "plaxis_videos =
     [(str ''plaxis'', Dir [(str ''Tunnel Excavation'', Dir [(str ''stage1.mp4'', File [])])])]"

definition plaxis_index :: "str \<times> node" where
  "plaxis_index =
     (str ''index.html'',
      File (str ''<html><body>'' @ index_body [index_link (str ''plaxis'') (str ''PLAXIS'')] @
            str ''</body></html>''))"

definition plaxis_site :: node where
  "plaxis_site =
     site_tree
       (templates @
        [plaxis_index,
         (str ''plaxis.html'',
            File (str ''<html><body>'' @
                  subfolders_body (str ''plaxis'') (str ''PLAXIS'')
                    [VIDEOS_ROOT @ [str ''plaxis'', str ''Tunnel Excavation'']] @
                  str ''</body></html>'')),
         (str ''plaxis'',
            Dir [(str ''tunnel-excavation.html'',
                  File (str ''<html><body>'' @
                        subcategory_body (str ''plaxis'') (str ''PLAXIS'')
                          (VIDEOS_ROOT @ [str ''plaxis'', str ''Tunnel Excavation''])
                          [VIDEOS_ROOT @ [str ''plaxis'', str ''Tunnel Excavation'', str ''stage1.mp4'']] @
                        str ''</body></html>''))])])
       plaxis_videos"

text \<open>
  The category \<open>plaxis\<close> with two subfolders, \<open>my-sub\<close> and \<open>My Sub\<close>, listed by the
  directory in this order, each with one video.
\<close>

definition clash_videos :: "(str \<times> node) list" where
  "clash_videos =
     [(str ''plaxis'',
       Dir [(str ''my-sub'', Dir [(str ''second.mp4'', File [])]),
            (str ''My Sub'', Dir [(str ''first.mp4'', File [])])])]"

definition clash_category :: "str \<times> node" where
  "clash_category =
     (str ''plaxis.html'',
      File (str ''<html><body>'' @
            subfolders_body (str ''plaxis'') (str ''PLAXIS'')
              [VIDEOS_ROOT @ [str ''plaxis'', str ''My Sub''], VIDEOS_ROOT @ [str ''plaxis'', str ''my-sub'']] @
            str ''</body></html>''))"

definition clash_page :: "str \<Rightarrow> str \<Rightarrow> str" where
  "clash_page subfolder video =
     str ''<html><body>'' @
     subcategory_body (str ''plaxis'') (str ''PLAXIS'') (VIDEOS_ROOT @ [str ''plaxis'', subfolder])
       [VIDEOS_ROOT @ [str ''plaxis'', subfolder, video]] @
     str ''</body></html>''"

definition clash_site :: "str \<Rightarrow> node" where
  "clash_site page =
     site_tree
       (templates @
        [plaxis_index, clash_category, (str ''plaxis'', Dir [(str ''my-sub.html'', File page)])])
       clash_videos"


section \<open>Lemmas on the string operations\<close>

lemma py_replace_char:
  "py_replace s [a] [b] = map (\<lambda>c. if c = a then b else c) s"
proof (induction s)
  case Nil
  show ?case by (simp add: py_replace.simps)
next
  case (Cons x xs)
  show ?case using Cons by (subst py_replace.simps) (simp add: take_Suc_conv_app_nth)
qed

lemma concat_map_single:
  "concat (map (\<lambda>c. if P c then [c] else [d]) s) = map (\<lambda>c. if P c then c else d) s"
  by (induction s) auto



lemma collapse_no_double: "\<not> py_in (str ''--'') (collapse_hyphens b)"
  by (induction b rule: collapse_hyphens.induct) (subst collapse_hyphens.simps, simp)



lemma collapse_id: "\<not> py_in (str ''--'') b \<Longrightarrow> collapse_hyphens b = b"
  by (subst collapse_hyphens.simps) simp

subsection \<open>The extension\<close>

lemma rfind_from_spec:
  "(c \<notin> set xs \<and> rfind_from i f xs c = f) \<or>
   (\<exists>k < length xs. rfind_from i f xs c = i + int k \<and> xs ! k = c \<and> c \<notin> set (drop (Suc k) xs))"
proof (induction xs arbitrary: i f)
  case Nil
  show ?case by simp
next
  case (Cons x xs)
  consider (a) "c \<notin> set xs" "rfind_from (i + 1) (if x = c then i else f) xs c = (if x = c then i else f)"
    | (b) k where "k < length xs" "rfind_from (i + 1) (if x = c then i else f) xs c = i + 1 + int k"
        "xs ! k = c" "c \<notin> set (drop (Suc k) xs)"
    using Cons [of "i + 1" "if x = c then i else f"] by blast
  then show ?case
  proof cases
    case a
    show ?thesis
    proof (cases "x = c")
      case True
      then have "0 < length (x # xs) \<and> rfind_from i f (x # xs) c = i + int 0 \<and> (x # xs) ! 0 = c
          \<and> c \<notin> set (drop (Suc 0) (x # xs))"
        using a by simp
      then show ?thesis by blast
    next
      case False
      then show ?thesis using a by simp
    qed
  next
    case b
    then have "Suc k < length (x # xs) \<and> rfind_from i f (x # xs) c = i + int (Suc k) \<and> (x # xs) ! Suc k = c
          \<and> c \<notin> set (drop (Suc (Suc k)) (x # xs))"
      by simp
    then show ?thesis by blast
  qed
qed

lemma rfind_cases:
  obtains (absent) "c \<notin> set s" "rfind s c = - 1"
  | (found) k where "k < length s" "rfind s c = int k" "s ! k = c" "c \<notin> set (drop (Suc k) s)"
  using rfind_from_spec [of c s 0 "- 1"] unfolding rfind_def by auto

lemma rfind_ge: "- 1 \<le> rfind s c"
  by (cases s c rule: rfind_cases) auto

lemma leading_dots_end_less: "leading_dots_end p f d \<Longrightarrow> f < d"
  by (subst (asm) leading_dots_end.simps) (auto split: if_splits)

lemma splitext_cases:
  obtains (whole) "splitext p = (p, [])"
  | (split) k where "0 < k" "k < length p" "p ! k = 0x2E"
      "splitext p = (take k p, 0x2E # drop (Suc k) p)" "0x2E \<notin> set (drop (Suc k) p)"
proof (cases "rfind p 0x2E > rfind p 0x2F \<and> leading_dots_end p (rfind p 0x2F + 1) (rfind p 0x2E)")
  case False
  then have "splitext p = (p, [])" by (auto simp: splitext_def Let_def)
  then show ?thesis by (rule whole)
next
  case True
  then have lt: "rfind p 0x2F + 1 < rfind p 0x2E" using leading_dots_end_less by blast
  have pos: "0 < rfind p 0x2E" using lt rfind_ge [of p "0x2F"] by linarith
  show ?thesis
  proof (cases p "0x2E :: nat" rule: rfind_cases)
    case absent
    then show ?thesis using pos by simp
  next
    case (found k)
    have "drop k p = p ! k # drop (Suc k) p" using found(1) by (simp add: Cons_nth_drop_Suc)
    then have "splitext p = (take k p, 0x2E # drop (Suc k) p)"
      using True found by (simp add: splitext_def Let_def)
    moreover have "0 < k" using pos found by simp
    ultimately show ?thesis using found by (intro split [of k]) auto
  qed
qed




lemma splitext_no_dot: "0x2E \<notin> set p \<Longrightarrow> splitext p = (p, [])"
proof (cases p rule: splitext_cases)
  case whole
  then show ?thesis by simp
next
  case (split k)
  assume "0x2E \<notin> set p"
  then show ?thesis using split(2,3) nth_mem by metis
qed

subsection \<open>Lower case and the slug\<close>

lemma py_in_dd_Cons:
  "py_in (str ''--'') (x # xs) \<longleftrightarrow> (x = 0x2D \<and> take 1 xs = [0x2D]) \<or> py_in (str ''--'') xs"
  by (cases xs) (auto simp: str_def)

lemma py_in_dd_Nil: "\<not> py_in (str ''--'') []"
  by (simp add: str_def)

lemma lower_char_shape:
  "(\<exists>d. lower_char c = [d] \<and> (d = 0x2D \<longleftrightarrow> c = 0x2D)) \<or> (lower_char c = [0x69, 0x307] \<and> c \<noteq> 0x2D)"
  by (auto simp: lower_char_def)

lemma lower_char_cases:
  obtains (one) d where "lower_char c = [d]" "d = 0x2D \<longleftrightarrow> c = 0x2D"
  | (two) "lower_char c = [0x69, 0x307]" "c \<noteq> 0x2D"
  using lower_char_shape [of c] by blast

lemma py_lower_Cons: "py_lower (c # cs) = lower_char c @ py_lower cs"
  by (simp add: py_lower_def)

lemma py_lower_head: "take 1 (py_lower s) = [0x2D] \<longleftrightarrow> take 1 s = [0x2D]"
proof (cases s)
  case Nil
  then show ?thesis by (simp add: py_lower_def)
next
  case (Cons c cs)
  show ?thesis by (cases c rule: lower_char_cases) (auto simp: Cons py_lower_Cons)
qed

lemma py_lower_no_double:
  "\<not> py_in (str ''--'') s \<Longrightarrow> \<not> py_in (str ''--'') (py_lower s)"
proof (induction s)
  case Nil
  then show ?case by (simp add: py_lower_def)
next
  case (Cons c cs)
  then have ih: "\<not> py_in (str ''--'') (py_lower cs)" and hd: "\<not> (c = 0x2D \<and> take 1 cs = [0x2D])"
    by (auto simp: py_in_dd_Cons simp del: py_in.simps)
  show ?case
  proof (cases c rule: lower_char_cases)
    case (one d)
    then show ?thesis using ih hd py_lower_head [of cs]
      by (auto simp: py_lower_Cons py_in_dd_Cons simp del: py_in.simps)
  next
    case two
    then show ?thesis using ih
      by (auto simp: py_lower_Cons py_in_dd_Cons simp del: py_in.simps)
  qed
qed


lemma py_lower_fixed: "\<forall>c\<in>set s. lower_char c = [c] \<Longrightarrow> py_lower s = s"
  by (induction s) (auto simp: py_lower_def)

lemma slug_char_lower: "slug_char c \<Longrightarrow> lower_char c = [c]"
  by (auto simp: slug_char_def lower_char_def)

lemma slug_char_keep: "slug_char c \<Longrightarrow> isalnum c \<or> c \<in> set (str ''-_'')"
  by (auto simp: slug_char_def isalnum_def str_def)

text \<open>The value of \<open>base\<close> when the loop of \<open>slug_from_name\<close> ends.\<close>

lemma slug_unfold:
  "slug_from_name n =
    (let b = py_lower (collapse_hyphens (map (\<lambda>ch. if isalnum ch \<or> ch \<in> set (str ''-_'') then ch else 0x2D)
               (map (\<lambda>c. if c = 0x20 then 0x2D else c) (fst (splitext n)))))
     in if b \<noteq> [] then b else str ''page'')"
proof -
  have 1: "py_replace b (str '' '') (str ''-'') = map (\<lambda>c. if c = 0x20 then 0x2D else c) b" for b
    using py_replace_char [of b "0x20" "0x2D"] by (simp add: str_def)
  have hy: "str ''-'' = [0x2D]" by (simp add: str_def)
  have 2: "concat (map (\<lambda>ch. if isalnum ch \<or> ch \<in> set (str ''-_'') then [ch] else str ''-'') b)
      = map (\<lambda>ch. if isalnum ch \<or> ch \<in> set (str ''-_'') then ch else 0x2D) b" for b
    unfolding hy by (rule concat_map_single)
  show ?thesis unfolding slug_from_name_def Let_def 1 2 ..
qed

lemma slug_nonempty: "slug_from_name n \<noteq> []"
  by (simp add: slug_unfold Let_def str_def)

lemma slug_no_double: "\<not> py_in (str ''--'') (slug_from_name n)"
proof -
  have "\<not> py_in (str ''--'') (str ''page'')" by (simp add: str_def)
  then show ?thesis
    using py_lower_no_double [OF collapse_no_double]
    by (simp add: slug_unfold Let_def)
qed



lemma slug_fixed_point:
  assumes "\<forall>c\<in>set s. slug_char c" "\<not> py_in (str ''--'') s" "s \<noteq> []"
  shows "slug_from_name s = s"
proof -
  have "0x2E \<notin> set s" using assms(1) by (auto simp: slug_char_def)
  then have 1: "fst (splitext s) = s" by (simp add: splitext_no_dot)
  have 2: "map (\<lambda>c. if c = 0x20 then 0x2D else c) s = s"
    using assms(1) by (intro map_idI) (auto simp: slug_char_def)
  have 3: "map (\<lambda>ch. if isalnum ch \<or> ch \<in> set (str ''-_'') then ch else 0x2D) s = s"
    using assms(1) slug_char_keep by (intro map_idI) auto
  have 4: "collapse_hyphens s = s" using assms(2) by (rule collapse_id)
  have 5: "py_lower s = s" using assms(1) slug_char_lower by (intro py_lower_fixed) auto
  show ?thesis using assms(3) by (simp add: slug_unfold Let_def 1 2 3 4 5)
qed





section \<open>Properties of the slug and the title\<close>




text \<open>
  C2 (as stated): the slug of \<open>My Model (v2).mp4\<close> is \<open>my-model-v2\<close>. It is not: the
  closing parenthesis becomes a hyphen like every other symbol, and nothing strips a
  trailing hyphen.
\<close>

theorem slug_my_model_not_stripped:
  "slug_from_name (str ''My Model (v2).mp4'') \<noteq> str ''my-model-v2''"
  by code_simp

text \<open>
  C2 (amended): the slug of \<open>My Model (v2).mp4\<close> is exactly \<open>my-model-v2-\<close>, with the
  hyphen that stands for the closing parenthesis.
\<close>

theorem slug_my_model:
  "slug_from_name (str ''My Model (v2).mp4'') = str ''my-model-v2-''"
  by code_simp

text \<open>
  C6 (as stated): \<open>slug(slug(n)) = slug(n)\<close> for every name. It fails for U+0130: its
  lower case is \<open>i\<close> followed by the combining dot U+0307, which is not alphanumeric, so
  the second application turns the dot into a hyphen.
\<close>

theorem slug_not_idempotent:
  "slug_from_name (slug_from_name [0x130]) \<noteq> slug_from_name [0x130]"
  by code_simp

text \<open>
  C6 (amended): for every name whose slug has no character outside \<open>[a-z0-9-_]\<close>, the
  slug of the slug is the slug.
\<close>

theorem slug_idempotent_on_invariant:
  assumes "\<forall>c\<in>set (slug_from_name n). slug_char c"
  shows "slug_from_name (slug_from_name n) = slug_from_name n"
  using assms slug_no_double slug_nonempty by (rule slug_fixed_point)

theorem slug_idempotent_on_invariant_witness:
  "slug_from_name (slug_from_name (str ''My Model (v2).mp4'')) = slug_from_name (str ''My Model (v2).mp4'')"
proof -
  have v: "slug_from_name (str ''My Model (v2).mp4'') = str ''my-model-v2-''"
    by code_simp
  have h: "\<forall>c\<in>set (slug_from_name (str ''My Model (v2).mp4'')). slug_char c"
    unfolding v by (simp add: str_def slug_char_def)
  show ?thesis
    using slug_idempotent_on_invariant [OF h] .
qed




section \<open>Listing a folder\<close>

lemma lookup_append:
  "lookup t (p @ q) = (case lookup t p of None \<Rightarrow> None | Some u \<Rightarrow> lookup u q)"
  by (induction t p rule: lookup.induct) (auto split: option.splits)

lemma lookup_child:
  "lookup fs folder = Some (Dir es) \<Longrightarrow> lookup fs (folder @ [n]) = map_of es n"
  by (simp add: lookup_append split: option.splits)

lemma children_distinct:
  "distinct (map fst es) \<Longrightarrow> distinct (map (\<lambda>(n, t). folder @ [n]) es)"
  by (induction es) (auto simp: image_iff)

text \<open>
  C5: for a folder that is a directory, \<open>list_video_files\<close> returns exactly the entries of
  the folder that are regular files and whose suffix, in lower case, is one of
  \<open>VIDEO_EXTS\<close>, each once, in ascending order of the lower-case file name; on a folder
  that holds \<open>B.mp4\<close>, \<open>a.MP4\<close> and \<open>c.txt\<close> it returns \<open>a.MP4\<close>, then \<open>B.mp4\<close>.
\<close>

theorem list_video_files_spec:
  assumes "lookup fs folder = Some (Dir es)" and "distinct (map fst es)"
  shows "(\<exists>videos. list_video_files fs folder = Inr videos
      \<and> set videos = {f. \<exists>n. f = folder @ [n] \<and> is_file fs f \<and> py_lower (suffix f) \<in> VIDEO_EXTS}
      \<and> distinct videos
      \<and> sorted (map (\<lambda>f. py_lower (path_name f)) videos))
    \<and> list_video_files
         (Dir [(str ''B.mp4'', File []), (str ''a.MP4'', File []), (str ''c.txt'', File [])]) []
       = Inr [[str ''a.MP4''], [str ''B.mp4'']]"
proof -
  let ?entries = "map (\<lambda>(n, t). folder @ [n]) es"
  let ?media = "\<lambda>f. is_file fs f \<and> py_lower (suffix f) \<in> VIDEO_EXTS"
  let ?videos = "sort_key (\<lambda>x. py_lower (path_name x)) (filter ?media ?entries)"
  have res: "list_video_files fs folder = Inr ?videos"
    using assms(1) by (simp add: list_video_files_def exists_def iterdir_def)
  have "folder @ [n] \<in> set ?entries" if isf: "is_file fs (folder @ [n])" for n
  proof -
    obtain c where "map_of es n = Some (File c)"
      using isf lookup_child [OF assms(1), of n]
      by (auto simp: is_file_def split: option.splits node.splits)
    then have "(n, File c) \<in> set es" by (rule map_of_SomeD)
    then show ?thesis by force
  qed
  then have "set ?videos = {f. \<exists>n. f = folder @ [n] \<and> ?media f}"
    by auto
  moreover have "distinct ?videos"
    using children_distinct [OF assms(2)] by simp
  moreover have "sorted (map (\<lambda>f. py_lower (path_name f)) ?videos)"
    by (rule sorted_sort_key)
  moreover have "list_video_files
         (Dir [(str ''B.mp4'', File []), (str ''a.MP4'', File []), (str ''c.txt'', File [])]) []
       = Inr [[str ''a.MP4''], [str ''B.mp4'']]"
    by code_simp
  ultimately show ?thesis using res by blast
qed

theorem list_video_files_spec_witness:
  "\<exists>videos. list_video_files
       (Dir [(str ''clips'', Dir [(str ''run2.WebM'', File []), (str ''notes.md'', File []),
                                  (str ''Run1.mp4'', File []), (str ''old.gif'', Dir [])])])
       [str ''clips''] = Inr videos
     \<and> set videos = {f. \<exists>n. f = [str ''clips''] @ [n]
           \<and> is_file (Dir [(str ''clips'', Dir [(str ''run2.WebM'', File []), (str ''notes.md'', File []),
                                  (str ''Run1.mp4'', File []), (str ''old.gif'', Dir [])])]) f
           \<and> py_lower (suffix f) \<in> VIDEO_EXTS}
     \<and> distinct videos
     \<and> sorted (map (\<lambda>f. py_lower (path_name f)) videos)"
proof -
  have h: "lookup (Dir [(str ''clips'', Dir [(str ''run2.WebM'', File []), (str ''notes.md'', File []),
                                  (str ''Run1.mp4'', File []), (str ''old.gif'', Dir [])])]) [str ''clips'']
      = Some (Dir [(str ''run2.WebM'', File []), (str ''notes.md'', File []),
                   (str ''Run1.mp4'', File []), (str ''old.gif'', Dir [])])"
    by simp
  have d: "distinct (map fst [(str ''run2.WebM'', File []), (str ''notes.md'', File []),
                   (str ''Run1.mp4'', File []), (str ''old.gif'', Dir [])])"
    by (simp add: str_def)
  show ?thesis
    using list_video_files_spec [OF h d] by blast
qed



section \<open>Lemmas on the rendered pages\<close>

lemma py_in_prefix: "py_in x (x @ b)"
  by (cases x) (cases b; simp_all)+

lemma py_in_append_left: "py_in x s \<Longrightarrow> py_in x (a @ s)"
  by (induction a) auto

lemma py_in_mid: "py_in x (a @ x @ b)"
  by (rule py_in_append_left) (rule py_in_prefix)

lemmas tree_defs = site_tree_def templates_def DOCS_DIR_def VIDEOS_ROOT_def exists_def is_dir_def
  is_file_def iterdir_def read_template_def write_html_def path_name_def

lemmas listing_defs = list_subfolders_def list_video_files_def suffix_def rfind_def VIDEO_EXTS_def
  py_lower_def lower_char_def

lemma py_in_concat:
  assumes "x \<in> set xs"
  shows "py_in x (a @ concat xs @ b)"
proof -
  obtain ys zs where "xs = ys @ x # zs"
    using assms by (meson split_list)
  then have "a @ concat xs @ b = (a @ concat ys) @ x @ (concat zs @ b)"
    by simp
  then show ?thesis
    by (simp only: py_in_mid)
qed

lemma py_in_concat_head: "x \<in> set xs \<Longrightarrow> py_in x (concat xs @ b)"
  using py_in_concat [of x xs "[]" b] by simp

lemma subfolders_body_item:
  assumes "sub \<in> set subfolders"
  shows "py_in (subfolder_item cat_slug sub)
     (template_top @ subfolders_body cat_slug cat_title subfolders @ template_bottom)"
proof -
  have "subfolder_item cat_slug sub \<in> set (map (subfolder_item cat_slug) subfolders)"
    using assms by simp
  then show ?thesis
    unfolding subfolders_body_def append_assoc
    by (intro py_in_append_left [of _ _ template_top] py_in_append_left [of _ _ "str _"]
        py_in_append_left [of _ _ cat_title] py_in_concat_head)
qed

lemma videos_body_nonempty:
  \<open>videos \<noteq> [] \<Longrightarrow>
   videos_body cat_slug cat_title videos =
     str ''\<newline><h1>'' @ cat_title @ str ''</h1>\<newline>'' @
     concat (map (category_block cat_slug) videos) @
     str ''\<newline><p><a href="'' @ BASE_URL @ str ''/index.html">Back to home</a></p>\<newline>''\<close>
  by (simp add: videos_body_def)


lemma videos_body_block:
  assumes "vid \<in> set videos"
  shows "py_in (category_block cat_slug vid)
     (template_top @ videos_body cat_slug cat_title videos @ template_bottom)"
proof -
  have "category_block cat_slug vid \<in> set (map (category_block cat_slug) videos)"
    using assms by simp
  moreover have "videos \<noteq> []"
    using assms by auto
  ultimately show ?thesis
    unfolding videos_body_nonempty [OF \<open>videos \<noteq> []\<close>] append_assoc
    by (intro py_in_append_left [of _ _ template_top] py_in_append_left [of _ _ "str _"]
        py_in_append_left [of _ _ cat_title] py_in_concat_head)
qed

lemma subcategory_body_nonempty:
  \<open>videos \<noteq> [] \<Longrightarrow>
   subcategory_body cat_slug cat_title subfolder videos =
     str ''\<newline><h1>'' @ title_from_name (path_name subfolder) @ str ''</h1>\<newline><p>Category: '' @
     cat_title @ str ''</p>\<newline>\<newline>'' @
     concat (map (subcategory_block cat_slug subfolder) videos) @
     str ''\<newline>\<newline><p>\<newline>    <a href="'' @ BASE_URL @ str ''/'' @ cat_slug @
     str ''.html">Back to '' @ cat_title @ str ''</a> |\<newline>    <a href="'' @ BASE_URL @
     str ''/index.html">Home</a>\<newline></p>\<newline>''\<close>
  by (simp add: subcategory_body_def)

lemma subcategory_body_block:
  assumes "vid \<in> set videos"
  shows "py_in (subcategory_block cat_slug subfolder vid)
     (template_top @ subcategory_body cat_slug cat_title subfolder videos @ template_bottom)"
proof -
  have "subcategory_block cat_slug subfolder vid
      \<in> set (map (subcategory_block cat_slug subfolder) videos)"
    using assms by simp
  moreover have "videos \<noteq> []"
    using assms by auto
  ultimately show ?thesis
    unfolding subcategory_body_nonempty [OF \<open>videos \<noteq> []\<close>] append_assoc
    by (intro py_in_append_left [of _ _ template_top] py_in_append_left [of _ _ "str _"]
        py_in_append_left [of _ _ cat_title] py_in_append_left [of _ _ "title_from_name _"]
        py_in_concat_head)
qed

section \<open>Markup of the category page\<close>
























section \<open>The category page\<close>



section \<open>Two runs\<close>

lemma main_plaxis: "main (site_tree templates plaxis_videos) = Inr plaxis_site"
proof -
  let ?t0 = "site_tree templates plaxis_videos"
  let ?cat = "(str ''plaxis.html'',
            File (str ''<html><body>'' @
                  subfolders_body (str ''plaxis'') (str ''PLAXIS'')
                    [VIDEOS_ROOT @ [str ''plaxis'', str ''Tunnel Excavation'']] @
                  str ''</body></html>''))"
  let ?t1 = "site_tree (templates @ [plaxis_index]) plaxis_videos"
  let ?t2 = "site_tree (templates @ [plaxis_index, ?cat]) plaxis_videos"
  have d: "exists ?t0 DOCS_DIR"
    by (simp add: tree_defs str_def)
  have i: "make_index_page ?t0 = Inr ?t1"
    by (simp add: make_index_page_def index_page_def CATEGORIES_def tree_defs plaxis_videos_def
        plaxis_index_def str_def)
  have e1: "\<not> exists ?t1 (VIDEOS_ROOT @ [str ''constitutive-models''])"
    by (simp add: tree_defs plaxis_videos_def str_def)
  have e2: "exists ?t1 (VIDEOS_ROOT @ [str ''plaxis''])"
    by (simp add: tree_defs plaxis_videos_def str_def)
  have c: "make_category_page ?t1 (str ''plaxis'') (str ''PLAXIS'') = Inr ?t2"
    by (simp add: make_category_page_def category_page_def listing_defs tree_defs plaxis_videos_def
        plaxis_index_def str_def)
  have l: "list_subfolders ?t2 (VIDEOS_ROOT @ [str ''plaxis''])
      = Inr [VIDEOS_ROOT @ [str ''plaxis'', str ''Tunnel Excavation'']]"
    by (simp add: listing_defs tree_defs plaxis_videos_def plaxis_index_def str_def)
  have s: "make_subcategory_page ?t2 (str ''plaxis'') (str ''PLAXIS'')
        (VIDEOS_ROOT @ [str ''plaxis'', str ''Tunnel Excavation'']) = Inr plaxis_site"
  proof -
    have slug: "slug_from_name (str ''Tunnel Excavation'') = str ''tunnel-excavation''"
      by code_simp
    have "path_name (VIDEOS_ROOT @ [str ''plaxis'', str ''Tunnel Excavation'']) = str ''Tunnel Excavation''"
      by (simp add: path_name_def)
    then show ?thesis
      by (simp add: make_subcategory_page_def subcategory_page_def listing_defs tree_defs
        plaxis_videos_def plaxis_index_def plaxis_site_def str_def
        slug [unfolded str_def, simplified])
  qed
  have e3: "\<not> exists plaxis_site (VIDEOS_ROOT @ [str ''undergraduate''])"
    by (simp add: tree_defs plaxis_videos_def plaxis_site_def str_def)
  show ?thesis
    by (simp add: main_def CATEGORIES_def Let_def d i e1 e2 c l s e3)
qed

text \<open>
  C4: with \<open>assets/videos/plaxis\<close> holding the subfolder \<open>Tunnel Excavation\<close> with the
  file \<open>stage1.mp4\<close> (the other configured categories have no directory and are skipped),
  the run succeeds; \<open>docs/plaxis.html\<close> contains the link to
  \<open>plaxis/tunnel-excavation.html\<close> labelled \<open>Tunnel Excavation\<close>, and
  \<open>docs/plaxis/tunnel-excavation.html\<close> contains the video block with source
  \<open>/animations/assets/videos/plaxis/Tunnel Excavation/stage1.mp4\<close> and caption
  \<open>Animation: Stage1\<close>.
\<close>

theorem end_to_end_plaxis:
  \<open>\<exists>site category_html subfolder_html.
     main (site_tree templates plaxis_videos) = Inr site
   \<and> read_text site [str ''docs'', str ''plaxis.html''] = Inr category_html
   \<and> py_in (str ''<li><a href="/animations/plaxis/tunnel-excavation.html">Tunnel Excavation</a></li>'')
        category_html
   \<and> read_text site [str ''docs'', str ''plaxis'', str ''tunnel-excavation.html''] = Inr subfolder_html
   \<and> py_in (str ''\<newline><section>\<newline>    <video controls>\<newline>        <source src="/animations/assets/videos/plaxis/Tunnel Excavation/stage1.mp4">\<newline>    </video>\<newline>    <p>Animation: Stage1</p>\<newline></section>\<newline>'')
        subfolder_html\<close>
proof -
  let ?sub = "VIDEOS_ROOT @ [str ''plaxis'', str ''Tunnel Excavation'']"
  let ?vid = "VIDEOS_ROOT @ [str ''plaxis'', str ''Tunnel Excavation'', str ''stage1.mp4'']"
  let ?category_html = "str ''<html><body>'' @
                  subfolders_body (str ''plaxis'') (str ''PLAXIS'') [?sub] @ str ''</body></html>''"
  let ?subfolder_html = "str ''<html><body>'' @
                        subcategory_body (str ''plaxis'') (str ''PLAXIS'') ?sub [?vid] @
                        str ''</body></html>''"
  have r1: "read_text plaxis_site [str ''docs'', str ''plaxis.html''] = Inr ?category_html"
    by (simp add: plaxis_site_def tree_defs plaxis_index_def str_def)
  have item: \<open>subfolder_item (str ''plaxis'') ?sub
      = str ''<li><a href="/animations/plaxis/tunnel-excavation.html">Tunnel Excavation</a></li>''\<close>
    by code_simp
  have p1: \<open>py_in (str ''<li><a href="/animations/plaxis/tunnel-excavation.html">Tunnel Excavation</a></li>'')
        ?category_html\<close>
    using subfolders_body_item [of ?sub "[?sub]" "str ''plaxis''" "str ''<html><body>''" "str ''PLAXIS''"
        "str ''</body></html>''"]
    unfolding item by simp
  have r2: "read_text plaxis_site [str ''docs'', str ''plaxis'', str ''tunnel-excavation.html'']
      = Inr ?subfolder_html"
    by (simp add: plaxis_site_def tree_defs plaxis_index_def str_def)
  have block: \<open>subcategory_block (str ''plaxis'') ?sub ?vid
     = str ''\<newline><section>\<newline>    <video controls>\<newline>        <source src="/animations/assets/videos/plaxis/Tunnel Excavation/stage1.mp4">\<newline>    </video>\<newline>    <p>Animation: Stage1</p>\<newline></section>\<newline>''\<close>
    by code_simp
  have p2: \<open>py_in (str ''\<newline><section>\<newline>    <video controls>\<newline>        <source src="/animations/assets/videos/plaxis/Tunnel Excavation/stage1.mp4">\<newline>    </video>\<newline>    <p>Animation: Stage1</p>\<newline></section>\<newline>'')
        ?subfolder_html\<close>
    using subcategory_body_block [of ?vid "[?vid]" "str ''plaxis''" ?sub "str ''<html><body>''"
        "str ''PLAXIS''" "str ''</body></html>''"]
    unfolding block by simp
  show ?thesis
    using main_plaxis r1 p1 r2 p2 by blast
qed

lemma main_clash:
  "main (site_tree templates clash_videos) = Inr (clash_site (clash_page (str ''my-sub'') (str ''second.mp4'')))"
proof -
  let ?t0 = "site_tree templates clash_videos"
  let ?t1 = "site_tree (templates @ [plaxis_index]) clash_videos"
  let ?t2 = "site_tree (templates @ [plaxis_index, clash_category]) clash_videos"
  have slug1: "slug_from_name (str ''My Sub'') = str ''my-sub''"
    by code_simp
  have slug2: "slug_from_name (str ''my-sub'') = str ''my-sub''"
    by code_simp
  have d: "exists ?t0 DOCS_DIR"
    by (simp add: tree_defs str_def)
  have i: "make_index_page ?t0 = Inr ?t1"
    by (simp add: make_index_page_def index_page_def CATEGORIES_def tree_defs clash_videos_def
        plaxis_index_def str_def)
  have e1: "\<not> exists ?t1 (VIDEOS_ROOT @ [str ''constitutive-models''])"
    by (simp add: tree_defs clash_videos_def str_def)
  have e2: "exists ?t1 (VIDEOS_ROOT @ [str ''plaxis''])"
    by (simp add: tree_defs clash_videos_def str_def)
  have c: "make_category_page ?t1 (str ''plaxis'') (str ''PLAXIS'') = Inr ?t2"
    by (simp add: make_category_page_def category_page_def listing_defs tree_defs clash_videos_def
        plaxis_index_def clash_category_def str_def)
  have l: "list_subfolders ?t2 (VIDEOS_ROOT @ [str ''plaxis''])
      = Inr [VIDEOS_ROOT @ [str ''plaxis'', str ''My Sub''], VIDEOS_ROOT @ [str ''plaxis'', str ''my-sub'']]"
    by (simp add: listing_defs tree_defs clash_videos_def plaxis_index_def clash_category_def str_def)
  have s1: "make_subcategory_page ?t2 (str ''plaxis'') (str ''PLAXIS'')
        (VIDEOS_ROOT @ [str ''plaxis'', str ''My Sub''])
      = Inr (clash_site (clash_page (str ''My Sub'') (str ''first.mp4'')))"
    by (simp add: make_subcategory_page_def subcategory_page_def listing_defs tree_defs
        clash_videos_def plaxis_index_def clash_category_def clash_site_def clash_page_def str_def
        slug1 [unfolded str_def, simplified])
  have s2: "make_subcategory_page (clash_site (clash_page (str ''My Sub'') (str ''first.mp4'')))
        (str ''plaxis'') (str ''PLAXIS'') (VIDEOS_ROOT @ [str ''plaxis'', str ''my-sub''])
      = Inr (clash_site (clash_page (str ''my-sub'') (str ''second.mp4'')))"
    by (simp add: make_subcategory_page_def subcategory_page_def listing_defs tree_defs
        clash_videos_def plaxis_index_def clash_category_def clash_site_def clash_page_def str_def
        slug2 [unfolded str_def, simplified])
  have e3: "\<not> exists (clash_site (clash_page (str ''my-sub'') (str ''second.mp4'')))
      (VIDEOS_ROOT @ [str ''undergraduate''])"
    by (simp add: tree_defs clash_videos_def clash_site_def str_def)
  show ?thesis
    by (simp add: main_def CATEGORIES_def Let_def d i e1 e2 c l s1 s2 e3)
qed

text \<open>
  C10: the slug is not injective: the distinct names \<open>My Sub\<close> and \<open>my-sub\<close> have the
  same slug. With both as subfolders of one category, both pages go to
  \<open>docs/plaxis/my-sub.html\<close>: after the run the directory \<open>docs/plaxis\<close> holds this one
  file, its text is the page of \<open>my-sub\<close>, rendered last, and the page of \<open>My Sub\<close>,
  a different text, is gone.
\<close>

theorem slug_clash_overwrites:
  "str ''My Sub'' \<noteq> str ''my-sub''
   \<and> slug_from_name (str ''My Sub'') = slug_from_name (str ''my-sub'')
   \<and> (\<exists>site. main (site_tree templates clash_videos) = Inr site
        \<and> iterdir site [str ''docs'', str ''plaxis''] = Inr [[str ''docs'', str ''plaxis'', str ''my-sub.html'']]
        \<and> read_text site [str ''docs'', str ''plaxis'', str ''my-sub.html'']
            = subcategory_page (site_tree templates clash_videos) (str ''plaxis'') (str ''PLAXIS'')
                (VIDEOS_ROOT @ [str ''plaxis'', str ''my-sub''])
        \<and> read_text site [str ''docs'', str ''plaxis'', str ''my-sub.html'']
            \<noteq> subcategory_page (site_tree templates clash_videos) (str ''plaxis'') (str ''PLAXIS'')
                (VIDEOS_ROOT @ [str ''plaxis'', str ''My Sub'']))"
proof -
  let ?site = "clash_site (clash_page (str ''my-sub'') (str ''second.mp4''))"
  have n: "str ''My Sub'' \<noteq> str ''my-sub''"
    by (simp add: str_def)
  have s: "slug_from_name (str ''My Sub'') = slug_from_name (str ''my-sub'')"
    by code_simp
  have i: "iterdir ?site [str ''docs'', str ''plaxis''] = Inr [[str ''docs'', str ''plaxis'', str ''my-sub.html'']]"
    by (simp add: tree_defs clash_site_def plaxis_index_def clash_category_def str_def)
  have r: "read_text ?site [str ''docs'', str ''plaxis'', str ''my-sub.html'']
      = Inr (clash_page (str ''my-sub'') (str ''second.mp4''))"
    by (simp add: tree_defs clash_site_def plaxis_index_def clash_category_def str_def)
  have p2: "subcategory_page (site_tree templates clash_videos) (str ''plaxis'') (str ''PLAXIS'')
                (VIDEOS_ROOT @ [str ''plaxis'', str ''my-sub''])
      = Inr (clash_page (str ''my-sub'') (str ''second.mp4''))"
    by (simp add: subcategory_page_def listing_defs tree_defs clash_videos_def clash_page_def str_def)
  have p1: "subcategory_page (site_tree templates clash_videos) (str ''plaxis'') (str ''PLAXIS'')
                (VIDEOS_ROOT @ [str ''plaxis'', str ''My Sub''])
      = Inr (clash_page (str ''My Sub'') (str ''first.mp4''))"
    by (simp add: subcategory_page_def listing_defs tree_defs clash_videos_def clash_page_def str_def)
  have ne: "clash_page (str ''my-sub'') (str ''second.mp4'') \<noteq> clash_page (str ''My Sub'') (str ''first.mp4'')"
    by code_simp
  show ?thesis
    using n s main_clash i r p1 p2 ne by (intro conjI exI [of _ ?site]) simp_all
qed

section \<open>Running the generator again\<close>

subsection \<open>Writes into the tree\<close>

text \<open>\<open>put t p c\<close> overwrites the text of the file at \<open>p\<close>, if there is one.\<close>

fun put :: "node \<Rightarrow> path \<Rightarrow> str \<Rightarrow> node" where
  "put (File old) [] c = File c"
| "put (Dir es) [] c = Dir es"
| "put (File old) (n # p) c = File old"
| "put (Dir es) (n # p) c =
     (case map_of es n of None \<Rightarrow> Dir es | Some t \<Rightarrow> Dir (AList.update n (put t p c) es))"

lemma update_commute:
  "k \<noteq> k' \<Longrightarrow> map_of es k \<noteq> None \<Longrightarrow>
   AList.update k v (AList.update k' w es) = AList.update k' w (AList.update k v es)"
  by (induction es) auto

lemma mkdir_p_existing: "lookup t p = Some (Dir es) \<Longrightarrow> mkdir_p t p = Inr t"
proof (induction t p arbitrary: es rule: mkdir_p.induct)
  case (4 ds n p)
  then obtain u where u: "map_of ds n = Some u" "lookup u p = Some (Dir es)"
    by (auto split: option.splits)
  then have "mkdir_p u p = Inr u"
    using 4 by simp
  then show ?case
    using u by (simp add: AList.update_triv)
qed auto

lemma write_text_existing: "lookup t p = Some (File old) \<Longrightarrow> write_text t p c = Inr (put t p c)"
proof (induction t p c arbitrary: old rule: write_text.induct)
  case (4 es n p content)
  then obtain u where u: "map_of es n = Some u" "lookup u p = Some (File old)"
    by (auto split: option.splits)
  then have "write_text u p content = Inr (put u p content)"
    using 4 by simp
  then show ?case
    using u by simp
qed auto

lemma lookup_butlast_dir:
  "lookup t p = Some (File old) \<Longrightarrow> p \<noteq> [] \<Longrightarrow> \<exists>es. lookup t (butlast p) = Some (Dir es)"
proof (induction t p rule: lookup.induct)
  case (3 es n p)
  then obtain u where u: "map_of es n = Some u" "lookup u p = Some (File old)"
    by (auto split: option.splits)
  show ?case
  proof (cases "p = []")
    case True
    then show ?thesis by simp
  next
    case False
    then show ?thesis using 3 u by simp
  qed
qed auto

lemma write_html_existing:
  assumes "lookup t p = Some (File old)" "p \<noteq> []"
  shows "write_html t p c = Inr (put t p c)"
proof -
  obtain es where "lookup t (butlast p) = Some (Dir es)"
    using lookup_butlast_dir [OF assms] by blast
  then have "mkdir_p t (butlast p) = Inr t"
    by (rule mkdir_p_existing)
  then show ?thesis
    using write_text_existing [OF assms(1)] by (simp add: write_html_def)
qed

lemma write_text_lookup: "write_text t p c = Inr t' \<Longrightarrow> lookup t' p = Some (File c)"
proof (induction t p c arbitrary: t' rule: write_text.induct)
  case (4 es n p content)
  then show ?case
    by (auto split: option.splits sum.splits if_splits simp: AList.update_conv')
qed auto

lemma write_html_lookup: "write_html t p c = Inr t' \<Longrightarrow> lookup t' p = Some (File c)"
  by (auto simp: write_html_def split: sum.splits dest: write_text_lookup)

lemma mkdir_p_file: "mkdir_p t p = Inr t' \<Longrightarrow> lookup t q = Some (File d) \<Longrightarrow> lookup t' q = Some (File d)"
proof (induction t p arbitrary: t' q rule: mkdir_p.induct)
  case (4 es n p)
  obtain m q' where q: "q = m # q'"
    using 4(3) by (cases q) auto
  obtain u' where u': "mkdir_p (case map_of es n of None \<Rightarrow> Dir [] | Some t \<Rightarrow> t) p = Inr u'"
      "t' = Dir (AList.update n u' es)"
    using 4(2) by (auto split: sum.splits)
  show ?case
  proof (cases "m = n")
    case False
    then show ?thesis using 4(3) q u' by (simp add: AList.update_conv')
  next
    case True
    then obtain u where u: "map_of es n = Some u" "lookup u q' = Some (File d)"
      using 4(3) q by (auto split: option.splits)
    then have "lookup u' q' = Some (File d)"
      using 4(1) [of u' q'] u' by simp
    then show ?thesis using True q u' by (simp add: AList.update_conv')
  qed
qed auto

lemma write_text_file:
  "write_text t p c = Inr t' \<Longrightarrow> lookup t q = Some (File d) \<Longrightarrow> q \<noteq> p \<Longrightarrow> lookup t' q = Some (File d)"
proof (induction t p c arbitrary: t' q rule: write_text.induct)
  case (1 old content)
  then show ?case by (cases q) auto
next
  case (4 es n p content)
  obtain m q' where q: "q = m # q'"
    using 4(3) by (cases q) auto
  show ?case
  proof (cases "m = n")
    case False
    then show ?thesis using 4(2,3) q
      by (auto split: option.splits sum.splits if_splits simp: AList.update_conv')
  next
    case True
    then obtain u where u: "map_of es n = Some u" "lookup u q' = Some (File d)"
      using 4(3) q by (auto split: option.splits)
    then obtain u' where u': "write_text u p content = Inr u'" "t' = Dir (AList.update n u' es)"
      using 4(2) by (auto split: sum.splits)
    have "q' \<noteq> p" using 4(4) q True by simp
    then have "lookup u' q' = Some (File d)"
      using 4(1) [OF u(1) u'(1) u(2)] by simp
    then show ?thesis using True q u' by (simp add: AList.update_conv')
  qed
qed auto

lemma write_html_file:
  "write_html t p c = Inr t' \<Longrightarrow> lookup t q = Some (File d) \<Longrightarrow> q \<noteq> p \<Longrightarrow> lookup t' q = Some (File d)"
  by (auto simp: write_html_def split: sum.splits dest: mkdir_p_file write_text_file)

lemma put_file:
  "lookup t q = Some (File d) \<Longrightarrow> lookup (put t p c) q = Some (File (if q = p then c else d))"
proof (induction t p c arbitrary: q rule: put.induct)
  case (1 old c)
  then show ?case by (cases q) auto
next
  case (2 es c)
  then show ?case by auto
next
  case (3 old n p c)
  then show ?case by (cases q) auto
next
  case (4 es n p c)
  obtain m q' where q: "q = m # q'"
    using 4(2) by (cases q) auto
  show ?case
  proof (cases "map_of es n")
    case None
    then show ?thesis using 4(2) q by (auto split: option.splits)
  next
    case (Some u)
    show ?thesis
    proof (cases "m = n")
      case False
      then show ?thesis using 4(2) q Some by (simp add: AList.update_conv')
    next
      case True
      then have "lookup u q' = Some (File d)"
        using 4(2) q Some by simp
      then have "lookup (put u p c) q' = Some (File (if q' = p then c else d))"
        using 4(1) [OF Some] by simp
      then show ?thesis using True q Some by (simp add: AList.update_conv')
    qed
  qed
qed

lemma put_id: "lookup t p = Some (File c) \<Longrightarrow> put t p c = t"
proof (induction t p c rule: put.induct)
  case (4 es n p c)
  then obtain u where u: "map_of es n = Some u" "lookup u p = Some (File c)"
    by (auto split: option.splits)
  then have "put u p c = u" using 4 by simp
  then show ?case using u by (simp add: AList.update_triv)
qed auto

lemma put_put: "put (put t p c) p d = put t p d"
proof (induction t p c rule: put.induct)
  case (4 es n p c)
  then show ?case
    by (cases "map_of es n") (simp_all add: AList.update_conv')
qed auto

lemma put_commute: "p \<noteq> q \<Longrightarrow> put (put t p c) q d = put (put t q d) p c"
proof (induction t p c arbitrary: q rule: put.induct)
  case (1 old c)
  then show ?case by (cases q) auto
next
  case (2 es c)
  then show ?case by (cases q) (auto split: option.splits)
next
  case (3 old n p c)
  then show ?case by (cases q) auto
next
  case (4 es n p c)
  show ?case
  proof (cases q)
    case Nil
    then show ?thesis by (auto split: option.splits)
  next
    case (Cons m q')
    show ?thesis
    proof (cases "m = n")
      case True
      then have "p \<noteq> q'" using 4(2) Cons by simp
      show ?thesis
      proof (cases "map_of es n")
        case None
        then show ?thesis using True Cons by simp
      next
        case (Some u)
        then show ?thesis
          using True Cons 4(1) [OF Some \<open>p \<noteq> q'\<close>] by (simp add: AList.update_conv')
      qed
    next
      case False
      show ?thesis
      proof (cases "map_of es n")
        case None
        then show ?thesis using False Cons
          by (cases "map_of es m") (simp_all add: AList.update_conv')
      next
        case (Some u)
        show ?thesis
        proof (cases "map_of es m")
          case None
          then show ?thesis using False Cons Some by (simp add: AList.update_conv')
        next
          case Some2: (Some w)
          have "AList.update m (put w q' d) (AList.update n (put u p c) es)
              = AList.update n (put u p c) (AList.update m (put w q' d) es)"
            using False Some2 by (intro update_commute) auto
          then show ?thesis using False Cons Some Some2 by (simp add: AList.update_conv')
        qed
      qed
    qed
  qed
qed

lemma mkdir_p_other:
  "mkdir_p t (n # p) = Inr t' \<Longrightarrow> m \<noteq> n \<Longrightarrow> lookup t' (m # q) = lookup t (m # q)"
  by (cases t) (auto split: sum.splits simp: AList.update_conv')

lemma write_text_other:
  "write_text t (n # p) c = Inr t' \<Longrightarrow> m \<noteq> n \<Longrightarrow> lookup t' (m # q) = lookup t (m # q)"
  by (cases t) (auto split: sum.splits option.splits if_splits simp: AList.update_conv')

lemma write_html_other:
  assumes "write_html t (n # p) c = Inr t'" "m \<noteq> n"
  shows "lookup t' (m # q) = lookup t (m # q)"
proof -
  obtain t1 where t1: "mkdir_p t (butlast (n # p)) = Inr t1" "write_text t1 (n # p) c = Inr t'"
    using assms(1) by (auto simp: write_html_def split: sum.splits)
  have "lookup t1 (m # q) = lookup t (m # q)"
  proof (cases "p = []")
    case True
    then have "t1 = t" using t1(1) by (cases t) auto
    then show ?thesis by simp
  next
    case False
    then have "mkdir_p t (n # butlast p) = Inr t1" using t1(1) by simp
    then show ?thesis using assms(2) by (rule mkdir_p_other)
  qed
  then show ?thesis
    using write_text_other [OF t1(2) assms(2)] by simp
qed

subsection \<open>Sequences of writes\<close>

text \<open>A run as a sequence of writes, and the same sequence as overwrites.\<close>

fun apply_writes :: "(path \<times> str) list \<Rightarrow> node \<Rightarrow> error + node" where
  "apply_writes [] t = Inr t"
| "apply_writes ((p, c) # ws) t =
     (case write_html t p c of Inl e \<Rightarrow> Inl e | Inr t' \<Rightarrow> apply_writes ws t')"

fun puts :: "(path \<times> str) list \<Rightarrow> node \<Rightarrow> node" where
  "puts [] t = t"
| "puts ((p, c) # ws) t = puts ws (put t p c)"

lemma apply_writes_keeps:
  "apply_writes ws s = Inr t \<Longrightarrow> lookup s q = Some (File d) \<Longrightarrow> q \<notin> fst ` set ws \<Longrightarrow>
   lookup t q = Some (File d)"
proof (induction ws s rule: apply_writes.induct)
  case (2 p c ws s)
  from 2(2) obtain s' where s': "write_html s p c = Inr s'" "apply_writes ws s' = Inr t"
    by (auto split: sum.splits)
  have "lookup s' q = Some (File d)"
    using write_html_file [OF s'(1) 2(3)] 2(4) by auto
  then show ?case
    using 2(1) [OF s'(1) s'(2)] 2(4) by auto
qed auto

lemma apply_writes_file:
  "apply_writes ws s = Inr t \<Longrightarrow> lookup s q = Some (File d) \<Longrightarrow> \<exists>d'. lookup t q = Some (File d')"
proof (induction ws s arbitrary: d rule: apply_writes.induct)
  case (2 p c ws s)
  from 2(2) obtain s' where s': "write_html s p c = Inr s'" "apply_writes ws s' = Inr t"
    by (auto split: sum.splits)
  have "\<exists>d'. lookup s' q = Some (File d')"
  proof (cases "q = p")
    case True
    then show ?thesis using write_html_lookup [OF s'(1)] by simp
  next
    case False
    then show ?thesis using write_html_file [OF s'(1) 2(3)] by simp
  qed
  then show ?case
    using 2(1) [OF s'(1) s'(2)] by blast
qed auto

lemma apply_writes_written:
  "apply_writes ws s = Inr t \<Longrightarrow> p \<in> fst ` set ws \<Longrightarrow> \<exists>d. lookup t p = Some (File d)"
proof (induction ws s rule: apply_writes.induct)
  case (2 q c ws s)
  from 2(2) obtain s' where s': "write_html s q c = Inr s'" "apply_writes ws s' = Inr t"
    by (auto split: sum.splits)
  show ?case
  proof (cases "p \<in> fst ` set ws")
    case True
    then show ?thesis using 2(1) [OF s'(1) s'(2)] by simp
  next
    case False
    then have "p = q" using 2(3) by auto
    then show ?thesis
      using write_html_lookup [OF s'(1)] apply_writes_file [OF s'(2)] by simp
  qed
qed auto

lemma apply_writes_puts:
  "\<forall>p\<in>fst ` set ws. p \<noteq> [] \<and> (\<exists>d. lookup u p = Some (File d)) \<Longrightarrow>
   apply_writes ws u = Inr (puts ws u)"
proof (induction ws u rule: apply_writes.induct)
  case (2 p c ws u)
  from 2(2) obtain d where d: "lookup u p = Some (File d)" and ne: "p \<noteq> []"
    by auto
  have w: "write_html u p c = Inr (put u p c)"
    using d ne by (rule write_html_existing)
  have "\<forall>q\<in>fst ` set ws. q \<noteq> [] \<and> (\<exists>d. lookup (put u p c) q = Some (File d))"
  proof
    fix q
    assume "q \<in> fst ` set ws"
    then obtain e where "q \<noteq> []" "lookup u q = Some (File e)"
      using 2(2) by auto
    then show "q \<noteq> [] \<and> (\<exists>d. lookup (put u p c) q = Some (File d))"
      using put_file [of u q e p c] by simp
  qed
  then show ?case
    using 2(1) [OF w] w by simp
qed auto

lemma puts_absorb: "p \<in> fst ` set ws \<Longrightarrow> puts ws (put t p c) = puts ws t"
proof (induction ws t rule: puts.induct)
  case (2 q d ws t)
  show ?case
  proof (cases "q = p")
    case True
    then show ?thesis by (simp add: put_put)
  next
    case False
    then have "p \<in> fst ` set ws" using 2(2) by auto
    then have "puts ws (put (put t q d) p c) = puts ws (put t q d)"
      by (rule 2(1))
    then show ?thesis using False by (simp add: put_commute [of p q])
  qed
qed auto

lemma puts_commute: "p \<notin> fst ` set ws \<Longrightarrow> puts ws (put t p c) = put (puts ws t) p c"
proof (induction ws t rule: puts.induct)
  case (2 q d ws t)
  from 2(2) have "q \<noteq> p" and "p \<notin> fst ` set ws" by auto
  then show ?case
    using 2(1) by (simp add: put_commute [of p q])
qed auto

lemma apply_writes_puts_fixed: "apply_writes ws s = Inr t \<Longrightarrow> puts ws t = t"
proof (induction ws s rule: apply_writes.induct)
  case (2 p c ws s)
  from 2(2) obtain s' where s': "write_html s p c = Inr s'" "apply_writes ws s' = Inr t"
    by (auto split: sum.splits)
  have ih: "puts ws t = t"
    using 2(1) [OF s'(1) s'(2)] .
  show ?case
  proof (cases "p \<in> fst ` set ws")
    case True
    then show ?thesis using ih by (simp add: puts_absorb)
  next
    case False
    have "lookup t p = Some (File c)"
      using apply_writes_keeps [OF s'(2) write_html_lookup [OF s'(1)] False] .
    then show ?thesis using ih False by (simp add: puts_commute put_id)
  qed
qed auto

lemma apply_writes_again:
  assumes "apply_writes ws s = Inr t" "\<forall>p\<in>fst ` set ws. p \<noteq> []"
  shows "apply_writes ws t = Inr t"
proof -
  have "\<forall>p\<in>fst ` set ws. p \<noteq> [] \<and> (\<exists>d. lookup t p = Some (File d))"
  proof
    fix p
    assume p: "p \<in> fst ` set ws"
    have "p \<noteq> []"
      using assms(2) p by (rule bspec)
    then show "p \<noteq> [] \<and> (\<exists>d. lookup t p = Some (File d))"
      using apply_writes_written [OF assms(1) p] by simp
  qed
  then have "apply_writes ws t = Inr (puts ws t)"
    by (rule apply_writes_puts)
  then show ?thesis
    using apply_writes_puts_fixed [OF assms(1)] by simp
qed

subsection \<open>The inputs of a run\<close>

text \<open>What a run reads: the two template fragments and the tree below \<open>assets/videos\<close>.\<close>

definition inputs :: "node \<Rightarrow> node option \<times> node option \<times> node option" where
  "inputs t =
     (lookup t (DOCS_DIR @ [str ''_template_top.html'']),
      lookup t (DOCS_DIR @ [str ''_template_bottom.html'']),
      lookup t VIDEOS_ROOT)"

lemma read_text_lookup: "read_text t p = Inr c \<longleftrightarrow> lookup t p = Some (File c)"
  by (induction t p rule: read_text.induct) (auto split: option.splits)

lemma inputs_below:
  "inputs s = inputs t \<Longrightarrow> lookup s (VIDEOS_ROOT @ r) = lookup t (VIDEOS_ROOT @ r)"
  by (simp add: inputs_def lookup_append)

lemma inputs_exists: "inputs s = inputs t \<Longrightarrow> exists s (VIDEOS_ROOT @ r) = exists t (VIDEOS_ROOT @ r)"
  using inputs_below [of s t r] by (simp add: exists_def)

lemma inputs_is_dir: "inputs s = inputs t \<Longrightarrow> is_dir s (VIDEOS_ROOT @ r) = is_dir t (VIDEOS_ROOT @ r)"
  using inputs_below [of s t r] by (simp add: is_dir_def)

lemma inputs_is_file: "inputs s = inputs t \<Longrightarrow> is_file s (VIDEOS_ROOT @ r) = is_file t (VIDEOS_ROOT @ r)"
  using inputs_below [of s t r] by (simp add: is_file_def)

lemma inputs_iterdir: "inputs s = inputs t \<Longrightarrow> iterdir s (VIDEOS_ROOT @ r) = iterdir t (VIDEOS_ROOT @ r)"
  using inputs_below [of s t r] by (simp add: iterdir_def)

lemma iterdir_entries:
  "iterdir t folder = Inr entries \<Longrightarrow> d \<in> set entries \<Longrightarrow> \<exists>n. d = folder @ [n]"
  by (auto simp: iterdir_def split: option.splits node.splits)

lemma inputs_list_subfolders:
  assumes "inputs s = inputs t"
  shows "list_subfolders s (VIDEOS_ROOT @ r) = list_subfolders t (VIDEOS_ROOT @ r)"
proof (cases "iterdir t (VIDEOS_ROOT @ r)")
  case (Inl e)
  then show ?thesis
    using inputs_exists [OF assms, of r] inputs_iterdir [OF assms, of r]
    by (simp add: list_subfolders_def)
next
  case (Inr entries)
  have "filter (is_dir s) entries = filter (is_dir t) entries"
  proof (rule filter_cong [OF refl])
    fix d
    assume "d \<in> set entries"
    then obtain n where "d = VIDEOS_ROOT @ (r @ [n])"
      using iterdir_entries [OF Inr] by auto
    then show "is_dir s d = is_dir t d"
      using inputs_is_dir [OF assms] by simp
  qed
  then show ?thesis
    using Inr inputs_exists [OF assms, of r] inputs_iterdir [OF assms, of r]
    by (simp add: list_subfolders_def)
qed

lemma inputs_list_video_files:
  assumes "inputs s = inputs t"
  shows "list_video_files s (VIDEOS_ROOT @ r) = list_video_files t (VIDEOS_ROOT @ r)"
proof (cases "iterdir t (VIDEOS_ROOT @ r)")
  case (Inl e)
  then show ?thesis
    using inputs_exists [OF assms, of r] inputs_iterdir [OF assms, of r]
    by (simp add: list_video_files_def)
next
  case (Inr entries)
  have "filter (\<lambda>f. is_file s f \<and> py_lower (suffix f) \<in> VIDEO_EXTS) entries
      = filter (\<lambda>f. is_file t f \<and> py_lower (suffix f) \<in> VIDEO_EXTS) entries"
  proof (rule filter_cong [OF refl])
    fix d
    assume "d \<in> set entries"
    then obtain n where "d = VIDEOS_ROOT @ (r @ [n])"
      using iterdir_entries [OF Inr] by auto
    then show "(is_file s d \<and> py_lower (suffix d) \<in> VIDEO_EXTS)
        = (is_file t d \<and> py_lower (suffix d) \<in> VIDEO_EXTS)"
      using inputs_is_file [OF assms] by simp
  qed
  then show ?thesis
    using Inr inputs_exists [OF assms, of r] inputs_iterdir [OF assms, of r]
    by (simp add: list_video_files_def)
qed

lemma inputs_template_top:
  "inputs s = inputs t \<Longrightarrow>
   read_template t (str ''_template_top.html'') = Inr c \<Longrightarrow>
   read_template s (str ''_template_top.html'') = Inr c"
  by (simp add: read_template_def read_text_lookup inputs_def)

lemma inputs_template_bottom:
  "inputs s = inputs t \<Longrightarrow>
   read_template t (str ''_template_bottom.html'') = Inr c \<Longrightarrow>
   read_template s (str ''_template_bottom.html'') = Inr c"
  by (simp add: read_template_def read_text_lookup inputs_def)

lemma inputs_index_page:
  assumes "inputs s = inputs t" "index_page t = Inr c"
  shows "index_page s = Inr c"
proof -
  obtain a b where ab: "read_template t (str ''_template_top.html'') = Inr a"
      "read_template t (str ''_template_bottom.html'') = Inr b"
    using assms(2) by (auto simp: index_page_def split: sum.splits)
  have "exists s (VIDEOS_ROOT @ [slug]) = exists t (VIDEOS_ROOT @ [slug])" for slug
    using assms(1) by (rule inputs_exists)
  then show ?thesis
    using assms(2) ab inputs_template_top [OF assms(1) ab(1)] inputs_template_bottom [OF assms(1) ab(2)]
    by (simp add: index_page_def)
qed

lemma inputs_category_page:
  assumes "inputs s = inputs t" "category_page t cat_slug cat_title = Inr c"
  shows "category_page s cat_slug cat_title = Inr c"
proof -
  obtain a b where ab: "read_template t (str ''_template_top.html'') = Inr a"
      "read_template t (str ''_template_bottom.html'') = Inr b"
    using assms(2) by (auto simp: category_page_def split: sum.splits)
  show ?thesis
    using assms(2) ab inputs_template_top [OF assms(1) ab(1)] inputs_template_bottom [OF assms(1) ab(2)]
      inputs_list_subfolders [OF assms(1), of "[cat_slug]"]
      inputs_list_video_files [OF assms(1), of "[cat_slug]"]
    by (simp add: category_page_def Let_def cong: sum.case_cong if_cong)
qed

lemma inputs_subcategory_page:
  assumes "inputs s = inputs t" "subcategory_page t cat_slug cat_title (VIDEOS_ROOT @ r) = Inr c"
  shows "subcategory_page s cat_slug cat_title (VIDEOS_ROOT @ r) = Inr c"
proof -
  obtain a b where ab: "read_template t (str ''_template_top.html'') = Inr a"
      "read_template t (str ''_template_bottom.html'') = Inr b"
    using assms(2) by (auto simp: subcategory_page_def split: sum.splits)
  show ?thesis
    using assms(2) ab inputs_template_top [OF assms(1) ab(1)] inputs_template_bottom [OF assms(1) ab(2)]
      inputs_list_video_files [OF assms(1), of r]
    by (simp add: subcategory_page_def)
qed

text \<open>A write below \<open>docs\<close>, to a path other than the two templates, keeps the inputs.\<close>

lemma write_html_inputs:
  assumes "write_html t (DOCS_DIR @ p) c = Inr t'"
    and "read_template t (str ''_template_top.html'') = Inr a"
    and "read_template t (str ''_template_bottom.html'') = Inr b"
    and "p \<noteq> [str ''_template_top.html'']" "p \<noteq> [str ''_template_bottom.html'']"
  shows "inputs t' = inputs t"
proof -
  have top: "lookup t (DOCS_DIR @ [str ''_template_top.html'']) = Some (File a)"
    and bottom: "lookup t (DOCS_DIR @ [str ''_template_bottom.html'']) = Some (File b)"
    using assms(2,3) by (simp_all add: read_template_def read_text_lookup)
  have "lookup t' (DOCS_DIR @ [str ''_template_top.html'']) = Some (File a)"
    using write_html_file [OF assms(1) top] assms(4) by simp
  moreover have "lookup t' (DOCS_DIR @ [str ''_template_bottom.html'']) = Some (File b)"
    using write_html_file [OF assms(1) bottom] assms(5) by simp
  moreover have "lookup t' VIDEOS_ROOT = lookup t VIDEOS_ROOT"
    using write_html_other [of t "str ''docs''" p c t' "str ''assets''" "[str ''videos'']"] assms(1)
    by (simp add: DOCS_DIR_def VIDEOS_ROOT_def str_def)
  ultimately show ?thesis
    using top bottom by (simp add: inputs_def)
qed

lemma apply_writes_append:
  "apply_writes (ws @ ws') s =
     (case apply_writes ws s of Inl e \<Rightarrow> Inl e | Inr t \<Rightarrow> apply_writes ws' t)"
  by (induction ws s rule: apply_writes.induct) (auto split: sum.splits)

lemma list_subfolders_below:
  "list_subfolders t folder = Inr subs \<Longrightarrow> sub \<in> set subs \<Longrightarrow> \<exists>n. sub = folder @ [n]"
  by (auto simp: list_subfolders_def split: if_splits sum.splits dest: iterdir_entries)

text \<open>
  A step that renders a page from the inputs and writes it below \<open>docs\<close> is one write,
  the same write on every tree with the same inputs.
\<close>

lemma page_step:
  assumes step: "\<And>fs. f fs = (case page fs of Inl e \<Rightarrow> Inl e | Inr full \<Rightarrow> write_html fs (DOCS_DIR @ p) full)"
    and transfer: "\<And>s t c. inputs s = inputs t \<Longrightarrow> page t = Inr c \<Longrightarrow> page s = Inr c"
    and templ: "\<And>t c. page t = Inr c \<Longrightarrow>
        \<exists>a b. read_template t (str ''_template_top.html'') = Inr a
            \<and> read_template t (str ''_template_bottom.html'') = Inr b"
    and p: "p \<noteq> [str ''_template_top.html'']" "p \<noteq> [str ''_template_bottom.html'']"
    and run: "f s = Inr s'"
  shows "\<exists>c. write_html s (DOCS_DIR @ p) c = Inr s' \<and> inputs s' = inputs s
      \<and> (\<forall>u u'. inputs u = inputs s \<longrightarrow> write_html u (DOCS_DIR @ p) c = Inr u'
            \<longrightarrow> f u = Inr u' \<and> inputs u' = inputs s)"
proof -
  obtain c where c: "page s = Inr c" "write_html s (DOCS_DIR @ p) c = Inr s'"
    using run unfolding step by (auto split: sum.splits)
  have keep: "inputs t' = inputs t"
    if pg: "page t = Inr c" and wr: "write_html t (DOCS_DIR @ p) c = Inr t'" for t t'
  proof -
    obtain a b where "read_template t (str ''_template_top.html'') = Inr a"
        "read_template t (str ''_template_bottom.html'') = Inr b"
      using templ [OF pg] by blast
    then show ?thesis
      using write_html_inputs [OF wr _ _ p] by blast
  qed
  have "f u = Inr u' \<and> inputs u' = inputs s"
    if u: "inputs u = inputs s" "write_html u (DOCS_DIR @ p) c = Inr u'" for u u'
  proof -
    have "page u = Inr c"
      using transfer [OF u(1) c(1)] .
    then show ?thesis
      using keep [of u u'] u by (simp add: step)
  qed
  then show ?thesis
    using c keep [OF c] by blast
qed

lemma index_page_templates:
  "index_page t = Inr c \<Longrightarrow>
   \<exists>a b. read_template t (str ''_template_top.html'') = Inr a
       \<and> read_template t (str ''_template_bottom.html'') = Inr b"
  by (auto simp: index_page_def split: sum.splits)

lemma category_page_templates:
  "category_page t cat_slug cat_title = Inr c \<Longrightarrow>
   \<exists>a b. read_template t (str ''_template_top.html'') = Inr a
       \<and> read_template t (str ''_template_bottom.html'') = Inr b"
  by (auto simp: category_page_def split: sum.splits)

lemma subcategory_page_templates:
  "subcategory_page t cat_slug cat_title sub = Inr c \<Longrightarrow>
   \<exists>a b. read_template t (str ''_template_top.html'') = Inr a
       \<and> read_template t (str ''_template_bottom.html'') = Inr b"
  by (auto simp: subcategory_page_def split: sum.splits)

lemma make_index_page_step:
  assumes "make_index_page s = Inr s'"
  shows "\<exists>c. write_html s (DOCS_DIR @ [str ''index.html'']) c = Inr s' \<and> inputs s' = inputs s
      \<and> (\<forall>u u'. inputs u = inputs s \<longrightarrow> write_html u (DOCS_DIR @ [str ''index.html'']) c = Inr u'
            \<longrightarrow> make_index_page u = Inr u' \<and> inputs u' = inputs s)"
proof -
  have 1: "make_index_page fs = (case index_page fs of Inl e \<Rightarrow> Inl e
      | Inr full \<Rightarrow> write_html fs (DOCS_DIR @ [str ''index.html'']) full)" for fs
    by (simp add: make_index_page_def)
  have 2: "[str ''index.html''] \<noteq> [str ''_template_top.html'']"
      "[str ''index.html''] \<noteq> [str ''_template_bottom.html'']"
    by (simp_all add: str_def)
  show ?thesis
    by (rule page_step [where f = make_index_page and page = index_page, OF 1 inputs_index_page
          index_page_templates 2 assms])
qed

lemma make_category_page_step:
  assumes "make_category_page s cat_slug cat_title = Inr s'"
    and "cat_slug @ str ''.html'' \<noteq> str ''_template_top.html''"
    and "cat_slug @ str ''.html'' \<noteq> str ''_template_bottom.html''"
  shows "\<exists>c. write_html s (DOCS_DIR @ [cat_slug @ str ''.html'']) c = Inr s' \<and> inputs s' = inputs s
      \<and> (\<forall>u u'. inputs u = inputs s \<longrightarrow> write_html u (DOCS_DIR @ [cat_slug @ str ''.html'']) c = Inr u'
            \<longrightarrow> make_category_page u cat_slug cat_title = Inr u' \<and> inputs u' = inputs s)"
proof -
  have 1: "make_category_page fs cat_slug cat_title =
      (case category_page fs cat_slug cat_title of Inl e \<Rightarrow> Inl e
       | Inr full \<Rightarrow> write_html fs (DOCS_DIR @ [cat_slug @ str ''.html'']) full)" for fs
    by (simp add: make_category_page_def)
  have 2: "[cat_slug @ str ''.html''] \<noteq> [str ''_template_top.html'']"
      "[cat_slug @ str ''.html''] \<noteq> [str ''_template_bottom.html'']"
    using assms(2,3) by simp_all
  show ?thesis
    by (rule page_step [where f = "\<lambda>fs. make_category_page fs cat_slug cat_title"
          and page = "\<lambda>fs. category_page fs cat_slug cat_title", OF 1 inputs_category_page
          category_page_templates 2 assms(1)])
qed

lemma make_subcategory_page_step:
  assumes "make_subcategory_page s cat_slug cat_title (VIDEOS_ROOT @ r) = Inr s'"
  shows "\<exists>p c. p \<noteq> [] \<and> write_html s p c = Inr s' \<and> inputs s' = inputs s
      \<and> (\<forall>u u'. inputs u = inputs s \<longrightarrow> write_html u p c = Inr u'
            \<longrightarrow> make_subcategory_page u cat_slug cat_title (VIDEOS_ROOT @ r) = Inr u' \<and> inputs u' = inputs s)"
proof -
  let ?p = "[cat_slug, slug_from_name (path_name (VIDEOS_ROOT @ r)) @ str ''.html'']"
  have 1: "make_subcategory_page fs cat_slug cat_title (VIDEOS_ROOT @ r) =
        (case subcategory_page fs cat_slug cat_title (VIDEOS_ROOT @ r) of Inl e \<Rightarrow> Inl e
         | Inr full \<Rightarrow> write_html fs (DOCS_DIR @ ?p) full)" for fs
    by (simp add: make_subcategory_page_def DOCS_DIR_def)
  have 2: "?p \<noteq> [str ''_template_top.html'']" "?p \<noteq> [str ''_template_bottom.html'']"
    by simp_all
  have "\<exists>c. write_html s (DOCS_DIR @ ?p) c = Inr s' \<and> inputs s' = inputs s
      \<and> (\<forall>u u'. inputs u = inputs s \<longrightarrow> write_html u (DOCS_DIR @ ?p) c = Inr u'
            \<longrightarrow> make_subcategory_page u cat_slug cat_title (VIDEOS_ROOT @ r) = Inr u' \<and> inputs u' = inputs s)"
    by (rule page_step [where f = "\<lambda>fs. make_subcategory_page fs cat_slug cat_title (VIDEOS_ROOT @ r)"
          and page = "\<lambda>fs. subcategory_page fs cat_slug cat_title (VIDEOS_ROOT @ r)", OF 1
          inputs_subcategory_page subcategory_page_templates 2 assms])
  then show ?thesis
    by (intro exI [of _ "DOCS_DIR @ ?p"]) (simp add: DOCS_DIR_def)
qed

subsection \<open>A run as a sequence of writes\<close>

text \<open>
  \<open>replay f s s' ws\<close>: on \<open>s\<close> the step \<open>f\<close> amounts to the writes \<open>ws\<close> and gives \<open>s'\<close>
  with the same inputs, and on every tree with the inputs of \<open>s\<close> on which these writes
  succeed, \<open>f\<close> gives their result and keeps the inputs.
\<close>

definition replay :: "(node \<Rightarrow> error + node) \<Rightarrow> node \<Rightarrow> node \<Rightarrow> (path \<times> str) list \<Rightarrow> bool" where
  "replay f s s' ws \<longleftrightarrow>
     apply_writes ws s = Inr s' \<and> (\<forall>p\<in>fst ` set ws. p \<noteq> []) \<and> inputs s' = inputs s \<and>
     (\<forall>u u'. inputs u = inputs s \<longrightarrow> apply_writes ws u = Inr u' \<longrightarrow>
        f u = Inr u' \<and> inputs u' = inputs s)"

lemma replayI:
  assumes "apply_writes ws s = Inr s'" "\<And>p. p \<in> fst ` set ws \<Longrightarrow> p \<noteq> []" "inputs s' = inputs s"
    and "\<And>u u'. inputs u = inputs s \<Longrightarrow> apply_writes ws u = Inr u' \<Longrightarrow> f u = Inr u' \<and> inputs u' = inputs s"
  shows "replay f s s' ws"
  unfolding replay_def using assms by blast

lemma replay_run: "replay f s s' ws \<Longrightarrow> apply_writes ws s = Inr s'"
  unfolding replay_def by blast

lemma replay_paths: "replay f s s' ws \<Longrightarrow> p \<in> fst ` set ws \<Longrightarrow> p \<noteq> []"
  unfolding replay_def by blast

lemma replay_inputs: "replay f s s' ws \<Longrightarrow> inputs s' = inputs s"
  unfolding replay_def by blast

lemma replay_again:
  "replay f s s' ws \<Longrightarrow> inputs u = inputs s \<Longrightarrow> apply_writes ws u = Inr u' \<Longrightarrow>
   f u = Inr u' \<and> inputs u' = inputs s"
  unfolding replay_def by blast

lemma replay_nil:
  assumes "\<And>u. inputs u = inputs s \<Longrightarrow> f u = Inr u"
  shows "replay f s s []"
proof (rule replayI)
  show "apply_writes [] s = Inr s" by simp
next
  fix p :: path
  assume "p \<in> fst ` set ([] :: (path \<times> str) list)"
  then show "p \<noteq> []" by simp
next
  show "inputs s = inputs s" ..
next
  fix u u'
  assume u: "inputs u = inputs s" and "apply_writes [] u = Inr u'"
  then have "u' = u" by simp
  then show "f u = Inr u' \<and> inputs u' = inputs s"
    using assms [OF u] u by simp
qed

lemma replay_single:
  assumes p: "p \<noteq> []" and w: "write_html s p c = Inr s'" and i: "inputs s' = inputs s"
    and a: "\<forall>u u'. inputs u = inputs s \<longrightarrow> write_html u p c = Inr u' \<longrightarrow> f u = Inr u' \<and> inputs u' = inputs s"
  shows "replay f s s' [(p, c)]"
proof (rule replayI)
  show "apply_writes [(p, c)] s = Inr s'"
    using w by simp
next
  fix q
  assume "q \<in> fst ` set [(p, c)]"
  then show "q \<noteq> []" using p by simp
next
  show "inputs s' = inputs s" by (rule i)
next
  fix u u'
  assume u: "inputs u = inputs s" and r: "apply_writes [(p, c)] u = Inr u'"
  have "write_html u p c = Inr u'"
    using r by (cases "write_html u p c") simp_all
  then show "f u = Inr u' \<and> inputs u' = inputs s"
    using a u by blast
qed

lemma replay_cong:
  assumes r: "replay f s s' ws" and e: "\<And>u. inputs u = inputs s \<Longrightarrow> g u = f u"
  shows "replay g s s' ws"
proof (rule replayI)
  show "apply_writes ws s = Inr s'" using r by (rule replay_run)
next
  fix p assume "p \<in> fst ` set ws"
  then show "p \<noteq> []" using r replay_paths by blast
next
  show "inputs s' = inputs s" using r by (rule replay_inputs)
next
  fix u u'
  assume u: "inputs u = inputs s" and w: "apply_writes ws u = Inr u'"
  have "f u = Inr u' \<and> inputs u' = inputs s"
    using r u w by (rule replay_again)
  then show "g u = Inr u' \<and> inputs u' = inputs s"
    using e [OF u] by simp
qed

lemma replay_seq:
  assumes f: "replay f s s1 ws1" and g: "replay g s1 s2 ws2"
    and h: "\<And>u u1 u2. inputs u = inputs s \<Longrightarrow> f u = Inr u1 \<Longrightarrow> inputs u1 = inputs s \<Longrightarrow>
        g u1 = Inr u2 \<Longrightarrow> h u = Inr u2"
  shows "replay h s s2 (ws1 @ ws2)"
proof (rule replayI)
  have in1: "inputs s1 = inputs s"
    using f by (rule replay_inputs)
  show "apply_writes (ws1 @ ws2) s = Inr s2"
    using replay_run [OF f] replay_run [OF g] by (simp add: apply_writes_append)
  show "inputs s2 = inputs s"
    using replay_inputs [OF g] in1 by simp
  show "p \<noteq> []" if "p \<in> fst ` set (ws1 @ ws2)" for p
  proof -
    have "p \<in> fst ` set ws1 \<or> p \<in> fst ` set ws2"
      using \<open>p \<in> fst ` set (ws1 @ ws2)\<close> by auto
    then show ?thesis
      using replay_paths [OF f] replay_paths [OF g] by blast
  qed
  show "h u = Inr u' \<and> inputs u' = inputs s"
    if u: "inputs u = inputs s" and w: "apply_writes (ws1 @ ws2) u = Inr u'" for u u'
  proof -
    obtain u1 where u1: "apply_writes ws1 u = Inr u1" "apply_writes ws2 u1 = Inr u'"
      using w by (cases "apply_writes ws1 u") (simp_all add: apply_writes_append)
    have fu: "f u = Inr u1 \<and> inputs u1 = inputs s"
      using f u u1(1) by (rule replay_again)
    then have "inputs u1 = inputs s1"
      using in1 by simp
    then have gu: "g u1 = Inr u' \<and> inputs u' = inputs s1"
      using g u1(2) by (intro replay_again)
    have "h u = Inr u'"
      using h [OF u] fu gu by blast
    then show ?thesis
      using gu in1 by simp
  qed
qed

lemma subfolder_pages_replay:
  assumes "subfolder_pages slug title subs s = Inr s'" "\<forall>sub\<in>set subs. \<exists>r. sub = VIDEOS_ROOT @ r"
  shows "\<exists>ws. replay (subfolder_pages slug title subs) s s' ws"
  using assms
proof (induction subs arbitrary: s)
  case Nil
  from Nil(1) have "s' = s"
    by simp
  moreover have "replay (subfolder_pages slug title []) s s []"
    by (rule replay_nil) simp
  ultimately show ?case by blast
next
  case (Cons sub subs)
  obtain r where r: "sub = VIDEOS_ROOT @ r"
    using Cons.prems(2) by auto
  obtain s1 where s1: "make_subcategory_page s slug title sub = Inr s1"
      "subfolder_pages slug title subs s1 = Inr s'"
    using Cons.prems(1) by (cases "make_subcategory_page s slug title sub") simp_all
  have "make_subcategory_page s slug title (VIDEOS_ROOT @ r) = Inr s1"
    using s1(1) r by simp
  from make_subcategory_page_step [OF this]
  obtain p c where pc: "p \<noteq> []" "write_html s p c = Inr s1" "inputs s1 = inputs s"
      "\<forall>u u'. inputs u = inputs s \<longrightarrow> write_html u p c = Inr u'
          \<longrightarrow> make_subcategory_page u slug title (VIDEOS_ROOT @ r) = Inr u' \<and> inputs u' = inputs s"
    by blast
  have first: "replay (\<lambda>u. make_subcategory_page u slug title (VIDEOS_ROOT @ r)) s s1 [(p, c)]"
    using pc by (rule replay_single)
  have "\<forall>sub\<in>set subs. \<exists>r. sub = VIDEOS_ROOT @ r"
    using Cons.prems(2) by simp
  from Cons.IH [OF s1(2) this]
  obtain ws where rest: "replay (subfolder_pages slug title subs) s1 s' ws"
    by blast
  have "replay (subfolder_pages slug title (sub # subs)) s s' ([(p, c)] @ ws)"
    using first rest
  proof (rule replay_seq)
    fix u u1 u2
    assume "make_subcategory_page u slug title (VIDEOS_ROOT @ r) = Inr u1"
      "subfolder_pages slug title subs u1 = Inr u2"
    then show "subfolder_pages slug title (sub # subs) u = Inr u2"
      using r by simp
  qed
  then show ?case by blast
qed

lemma make_category_page_inputs:
  assumes "make_category_page u slug title = Inr u1"
    and "slug @ str ''.html'' \<noteq> str ''_template_top.html''"
    and "slug @ str ''.html'' \<noteq> str ''_template_bottom.html''"
  shows "inputs u1 = inputs u"
  using make_category_page_step [OF assms] by blast

lemma category_pages_replay:
  assumes "category_pages cats s = Inr s'"
    and "\<forall>(slug, title)\<in>set cats. slug @ str ''.html'' \<noteq> str ''_template_top.html''
          \<and> slug @ str ''.html'' \<noteq> str ''_template_bottom.html''"
  shows "\<exists>ws. replay (category_pages cats) s s' ws"
  using assms
proof (induction cats arbitrary: s)
  case Nil
  from Nil(1) have "s' = s"
    by simp
  moreover have "replay (category_pages []) s s []"
    by (rule replay_nil) simp
  ultimately show ?case by blast
next
  case (Cons cat cats)
  obtain slug title where cat: "cat = (slug, title)"
    by (cases cat)
  have names: "slug @ str ''.html'' \<noteq> str ''_template_top.html''"
      "slug @ str ''.html'' \<noteq> str ''_template_bottom.html''"
    using Cons.prems(2) cat by auto
  have others: "\<forall>(slug, title)\<in>set cats. slug @ str ''.html'' \<noteq> str ''_template_top.html''
          \<and> slug @ str ''.html'' \<noteq> str ''_template_bottom.html''"
    using Cons.prems(2) by simp
  let ?dir = "VIDEOS_ROOT @ [slug]"
  show ?case
  proof (cases "exists s ?dir")
    case False
    then have "category_pages cats s = Inr s'"
      using Cons.prems(1) cat by simp
    from Cons.IH [OF this others]
    obtain ws where ws: "replay (category_pages cats) s s' ws"
      by blast
    have "replay (category_pages (cat # cats)) s s' ws"
      using ws
    proof (rule replay_cong)
      fix u
      assume "inputs u = inputs s"
      then have "\<not> exists u ?dir"
        using False inputs_exists [of u s "[slug]"] by simp
      then show "category_pages (cat # cats) u = category_pages cats u"
        using cat by simp
    qed
    then show ?thesis by blast
  next
    case True
    obtain s1 where s1: "make_category_page s slug title = Inr s1"
      using Cons.prems(1) cat True by (cases "make_category_page s slug title") simp_all
    obtain subs where subs: "list_subfolders s1 ?dir = Inr subs"
      using Cons.prems(1) cat True s1 by (cases "list_subfolders s1 ?dir") simp_all
    obtain s2 where s2: "subfolder_pages slug title subs s1 = Inr s2"
      using Cons.prems(1) cat True s1 subs by (cases "subfolder_pages slug title subs s1") simp_all
    have s3: "category_pages cats s2 = Inr s'"
      using Cons.prems(1) cat True s1 subs s2 by simp
    from make_category_page_step [OF s1 names]
    obtain c where c: "write_html s (DOCS_DIR @ [slug @ str ''.html'']) c = Inr s1" "inputs s1 = inputs s"
        "\<forall>u u'. inputs u = inputs s \<longrightarrow> write_html u (DOCS_DIR @ [slug @ str ''.html'']) c = Inr u'
            \<longrightarrow> make_category_page u slug title = Inr u' \<and> inputs u' = inputs s"
      by blast
    have "DOCS_DIR @ [slug @ str ''.html''] \<noteq> []"
      by simp
    then have first: "replay (\<lambda>u. make_category_page u slug title) s s1 [(DOCS_DIR @ [slug @ str ''.html''], c)]"
      using c by (rule replay_single)
    have "\<forall>sub\<in>set subs. \<exists>r. sub = VIDEOS_ROOT @ r"
    proof
      fix sub
      assume "sub \<in> set subs"
      then obtain n where "sub = ?dir @ [n]"
        using list_subfolders_below [OF subs] by blast
      then have "sub = VIDEOS_ROOT @ [slug, n]"
        by simp
      then show "\<exists>r. sub = VIDEOS_ROOT @ r" ..
    qed
    from subfolder_pages_replay [OF s2 this]
    obtain ws2 where second: "replay (subfolder_pages slug title subs) s1 s2 ws2"
      by blast
    from Cons.IH [OF s3 others]
    obtain ws3 where third: "replay (category_pages cats) s2 s' ws3"
      by blast
    let ?both = "\<lambda>u. case make_category_page u slug title of Inl e \<Rightarrow> Inl e
        | Inr u1 \<Rightarrow> subfolder_pages slug title subs u1"
    have both: "replay ?both s s2 ([(DOCS_DIR @ [slug @ str ''.html''], c)] @ ws2)"
      using first second by (rule replay_seq) simp
    have "replay (category_pages (cat # cats)) s s' (([(DOCS_DIR @ [slug @ str ''.html''], c)] @ ws2) @ ws3)"
      using both third
    proof (rule replay_seq)
      fix u u2 u3
      assume u: "inputs u = inputs s" and b: "?both u = Inr u2" and r: "category_pages cats u2 = Inr u3"
      obtain u1 where u1: "make_category_page u slug title = Inr u1"
          "subfolder_pages slug title subs u1 = Inr u2"
        using b by (cases "make_category_page u slug title") simp_all
      have "inputs u1 = inputs s1"
        using make_category_page_inputs [OF u1(1) names] u c(2) by simp
      then have l: "list_subfolders u1 ?dir = Inr subs"
        using inputs_list_subfolders [of u1 s1 "[slug]"] subs by simp
      have "exists u ?dir"
        using True u inputs_exists [of u s "[slug]"] by simp
      then show "category_pages (cat # cats) u = Inr u3"
        using cat u1 l r by simp
    qed
    then show ?thesis by blast
  qed
qed

lemma template_docs_exists:
  assumes "read_template t name = Inr a"
  shows "exists t DOCS_DIR"
proof -
  have "lookup t (DOCS_DIR @ [name]) = Some (File a)"
    using assms by (simp add: read_template_def read_text_lookup)
  then show ?thesis
    by (auto simp: exists_def lookup_append split: option.splits)
qed

lemma make_index_page_docs:
  assumes "make_index_page t = Inr t'"
  shows "exists t DOCS_DIR"
proof -
  obtain c where "index_page t = Inr c"
    using assms by (cases "index_page t") (simp_all add: make_index_page_def)
  then obtain a where "read_template t (str ''_template_top.html'') = Inr a"
    using index_page_templates by blast
  then show ?thesis
    by (rule template_docs_exists)
qed

lemma CATEGORIES_names:
  "\<forall>(slug, title)\<in>set CATEGORIES. slug @ str ''.html'' \<noteq> str ''_template_top.html''
      \<and> slug @ str ''.html'' \<noteq> str ''_template_bottom.html''"
  by (simp add: CATEGORIES_def str_def)

lemma main_replay:
  assumes "main s = Inr s'"
  shows "\<exists>ws. replay main s s' ws"
proof -
  obtain s0 where s0: "(if \<not> exists s DOCS_DIR then mkdir_p s DOCS_DIR else Inr s) = Inr s0"
    using assms by (cases "if \<not> exists s DOCS_DIR then mkdir_p s DOCS_DIR else Inr s")
      (simp_all add: main_def)
  obtain s1 where s1: "make_index_page s0 = Inr s1"
    using assms s0 by (cases "make_index_page s0") (simp_all add: main_def)
  have s2: "category_pages CATEGORIES s1 = Inr s'"
    using assms s0 s1 by (simp add: main_def)
  have docs: "exists s DOCS_DIR"
  proof (rule ccontr)
    assume no: "\<not> exists s DOCS_DIR"
    then have m: "mkdir_p s DOCS_DIR = Inr s0"
      using s0 by simp
    have "lookup s0 (DOCS_DIR @ [str ''_template_top.html'']) = None"
      using m no by (cases s) (auto simp: DOCS_DIR_def exists_def AList.update_conv' split: option.splits)
    moreover obtain c where "index_page s0 = Inr c"
      using s1 by (cases "index_page s0") (simp_all add: make_index_page_def)
    then obtain a where "read_template s0 (str ''_template_top.html'') = Inr a"
      using index_page_templates by blast
    ultimately show False
      by (simp add: read_template_def read_text_lookup)
  qed
  then have "s0 = s"
    using s0 by simp
  then have i: "make_index_page s = Inr s1"
    using s1 by simp
  from make_index_page_step [OF i]
  obtain c where c: "write_html s (DOCS_DIR @ [str ''index.html'']) c = Inr s1" "inputs s1 = inputs s"
      "\<forall>u u'. inputs u = inputs s \<longrightarrow> write_html u (DOCS_DIR @ [str ''index.html'']) c = Inr u'
          \<longrightarrow> make_index_page u = Inr u' \<and> inputs u' = inputs s"
    by blast
  have "DOCS_DIR @ [str ''index.html''] \<noteq> []"
    by simp
  then have first: "replay make_index_page s s1 [(DOCS_DIR @ [str ''index.html''], c)]"
    using c by (rule replay_single)
  from category_pages_replay [OF s2 CATEGORIES_names]
  obtain ws where rest: "replay (category_pages CATEGORIES) s1 s' ws"
    by blast
  have "replay main s s' ([(DOCS_DIR @ [str ''index.html''], c)] @ ws)"
    using first rest
  proof (rule replay_seq)
    fix u u1 u2
    assume i: "make_index_page u = Inr u1" and r: "category_pages CATEGORIES u1 = Inr u2"
    have "exists u DOCS_DIR"
      using i by (rule make_index_page_docs)
    then show "main u = Inr u2"
      using i r by (simp add: main_def)
  qed
  then show ?thesis by blast
qed

text \<open>
  C9: the run is a function of the tree, and running it again on the tree it has left
  changes nothing: when a run on \<open>fs\<close> succeeds and leaves \<open>site\<close>, a second run, on
  \<open>site\<close>, succeeds and leaves \<open>site\<close> itself, so every generated page has the same
  text after the second run as after the first.
\<close>

theorem main_twice:
  assumes "main fs = Inr site"
  shows "main site = Inr site"
proof -
  obtain ws where ws: "replay main fs site ws"
    using main_replay [OF assms] by blast
  have "apply_writes ws fs = Inr site"
    using ws by (rule replay_run)
  moreover have "\<forall>p\<in>fst ` set ws. p \<noteq> []"
    using replay_paths [OF ws] by blast
  ultimately have "apply_writes ws site = Inr site"
    by (rule apply_writes_again)
  moreover have "inputs site = inputs fs"
    using ws by (rule replay_inputs)
  ultimately show ?thesis
    using replay_again [OF ws] by blast
qed

theorem main_twice_witness: "main plaxis_site = Inr plaxis_site"
  using main_twice [OF main_plaxis] .

end
